theory Spec2Isabelle
  imports Main "HOL-Library.Word" "HOL-Library.Multiset"
begin

unbundle bit_operations_syntax

section \<open>Delta synchronisation of content-addressed files: the sending side\<close>

text \<open>
  The development embeds \<^verbatim>\<open>remotesync/send.go\<close>: \<^verbatim>\<open>WriteChunkHashes\<close>,
  \<^verbatim>\<open>forEachChunk\<close> and \<^verbatim>\<open>WriteChunkData\<close>. A Go function returning \<^verbatim>\<open>error\<close>
  and mutating its arguments becomes a function from the state to a pair of an
  \<open>error option\<close> (\<open>None\<close> is \<^verbatim>\<open>nil\<close>) and the state after the call: what was
  written or consumed before a failure stays visible, as it does in Go.
  The collaborators that \<^verbatim>\<open>send.go\<close> imports (the shuffle package, the bit and varint
  codecs, the storage) are modelled from the specification and marked as such.
\<close>

subsection \<open>Bytes, keys and errors\<close>

type_synonym byte = "8 word"

text \<open>
  Modelled from the spec: \<^verbatim>\<open>cafs.SKey\<close> is declared outside the sources at hand. The
  spec calls it a fixed-width content hash whose placeholder is the zero value
  (\<^verbatim>\<open>emptyKey\<close>); the width is taken to be 32 bytes, a SHA-256 digest.
\<close>

type_synonym SKey = "256 word"

definition KeySize :: nat where
  "KeySize = 32"

definition emptyKey :: SKey where
  "emptyKey = 0"

text \<open>\<^verbatim>\<open>key[:]\<close>, the bytes of a key, most significant byte first.\<close>

definition keyBytes :: "SKey \<Rightarrow> byte list" where
  "keyBytes k = map (\<lambda>i. ucast (drop_bit (8 * (KeySize - 1 - i)) k)) [0..<KeySize]"

text \<open>
  The error values of the package. \<open>WishlistTooShort\<close> wraps the error of the bit
  reader, as the \<^verbatim>\<open>fmt.Errorf\<close> of \<^verbatim>\<open>forEachChunk\<close> does; \<open>SpuriousRequest\<close> is
  \<^verbatim>\<open>errors.New("Receiver requested the empty chunk")\<close>; \<open>WishlistTooLong\<close> is
  \<^verbatim>\<open>errors.New("Wishlist too long")\<close>. \<open>EOF\<close> is \<^verbatim>\<open>io.EOF\<close>, \<open>IOError\<close> any other
  failure of a byte channel. \<open>ChunkNotFound\<close> and \<open>DomainExhausted\<close> come from the
  storage and the shuffler, \<open>MalformedVarint\<close> and \<open>ShortChunkRead\<close> from the receiving
  side (section 7 of the spec).
\<close>

datatype error =
    EOF
  | IOError
  | WishlistTooShort error
  | SpuriousRequest
  | WishlistTooLong
  | ChunkNotFound
  | DomainExhausted
  | MalformedVarint
  | ShortChunkRead

subsection \<open>Running a consumer over a list of items\<close>

text \<open>
  A consumer is a callback \<^verbatim>\<open>func(v interface{}) error\<close> acting on a state \<open>'s\<close>.
  \<open>emit_all\<close> calls it on each item in turn and stops at the first error.
\<close>

type_synonym ('a, 's) ConsumeFunc = "'a \<Rightarrow> 's \<Rightarrow> error option \<times> 's"

fun emit_all :: "('a, 's) ConsumeFunc \<Rightarrow> 'a list \<Rightarrow> 's \<Rightarrow> error option \<times> 's" where
  "emit_all consume [] s = (None, s)"
| "emit_all consume (v # vs) s =
     (case consume v s of
        (Some e, s') \<Rightarrow> (Some e, s')
      | (None, s') \<Rightarrow> emit_all consume vs s')"

subsection \<open>The stream shuffler\<close>

text \<open>
  Modelled from the spec: the package \<^verbatim>\<open>remotesync/shuffle\<close> (\<^verbatim>\<open>Permutation\<close>,
  \<^verbatim>\<open>NewStreamShuffler\<close>, \<^verbatim>\<open>Put\<close>, \<^verbatim>\<open>End\<close>) is missing from the sources. Following
  sections 3, 4.3, 4.4 and 9 of the spec: a permutation over the domain \<open>[0, N)\<close> is
  the list of destination slots, \<open>perm ! i\<close> being the slot of logical index \<open>i\<close>;
  the shuffler is an ordered map from destination slot to pending item plus a cursor,
  the next slot to emit.
\<close>

type_synonym Permutation = "nat list"

definition perm_ok :: "Permutation \<Rightarrow> bool" where
  "perm_ok p = (distinct p \<and> list_all (\<lambda>d. d < length p) p)"

record ('a, 's) StreamShuffler =
  perm :: Permutation
  placeholder :: 'a
  consume :: "('a, 's) ConsumeFunc"
  buffer :: "nat \<rightharpoonup> 'a"
  cursor :: nat
  count :: nat

definition NewStreamShuffler ::
  "Permutation \<Rightarrow> 'a \<Rightarrow> ('a, 's) ConsumeFunc \<Rightarrow> ('a, 's) StreamShuffler" where
  "NewStreamShuffler p ph c =
     \<lparr>perm = p, placeholder = ph, consume = c, buffer = Map.empty, cursor = 0, count = 0\<rparr>"

text \<open>
  Modelled from the spec: "whenever the smallest not-yet-emitted destination slot
  becomes available, invokes emit on it, repeating while further consecutive
  destination slots are already buffered"; the first emission error halts.
\<close>

function drain ::
  "('a, 's) StreamShuffler \<Rightarrow> 's \<Rightarrow> error option \<times> ('a, 's) StreamShuffler \<times> 's" where
  "drain sh s =
     (if cursor sh < length (perm sh) then
        (case buffer sh (cursor sh) of
           None \<Rightarrow> (None, sh, s)
         | Some v \<Rightarrow>
             (case consume sh v s of
                (Some e, s') \<Rightarrow> (Some e, sh, s')
              | (None, s') \<Rightarrow>
                  drain (sh\<lparr>buffer := (buffer sh)(cursor sh := None),
                             cursor := Suc (cursor sh)\<rparr>) s'))
      else (None, sh, s))"
  by pat_completeness auto
termination
  by (relation "measure (\<lambda>(sh, s). length (perm sh) - cursor sh)") auto

declare drain.simps [simp del]

text \<open>
  Modelled from the spec: \<^verbatim>\<open>Put\<close> accepts the next item in logical order and buffers
  it under its destination slot; putting more items than the domain holds is the
  error of exhausting the permutation domain (section 4.4).
\<close>

definition Put ::
  "'a \<Rightarrow> ('a, 's) StreamShuffler \<Rightarrow> 's \<Rightarrow> error option \<times> ('a, 's) StreamShuffler \<times> 's" where
  "Put v sh s =
     (if count sh < length (perm sh) then
        drain (sh\<lparr>buffer := (buffer sh)(perm sh ! count sh \<mapsto> v), count := Suc (count sh)\<rparr>) s
      else (Some DomainExhausted, sh, s))"

text \<open>
  Modelled from the spec: \<^verbatim>\<open>End\<close> emits every remaining destination slot in
  ascending order, a pending item where one is buffered and the placeholder
  otherwise, and returns the first emission error.
\<close>

function fill ::
  "('a, 's) StreamShuffler \<Rightarrow> 's \<Rightarrow> error option \<times> ('a, 's) StreamShuffler \<times> 's" where
  "fill sh s =
     (if cursor sh < length (perm sh) then
        (case consume sh (case buffer sh (cursor sh) of None \<Rightarrow> placeholder sh | Some v \<Rightarrow> v) s of
           (Some e, s') \<Rightarrow> (Some e, sh, s')
         | (None, s') \<Rightarrow>
             fill (sh\<lparr>buffer := (buffer sh)(cursor sh := None),
                       cursor := Suc (cursor sh)\<rparr>) s')
      else (None, sh, s))"
  by pat_completeness auto
termination
  by (relation "measure (\<lambda>(sh, s). length (perm sh) - cursor sh)") auto

declare fill.simps [simp del]

definition End ::
  "('a, 's) StreamShuffler \<Rightarrow> 's \<Rightarrow> error option \<times> ('a, 's) StreamShuffler \<times> 's" where
  "End sh s = fill sh s"

text \<open>
  The caller's loop, as written in \<^verbatim>\<open>WriteChunkHashes\<close> and \<^verbatim>\<open>forEachChunk\<close>:
  \<^verbatim>\<open>for iter.Next() { if err := shuffler.Put(..); err != nil { return err } }\<close>
  followed by \<^verbatim>\<open>shuffler.End()\<close>.
\<close>

fun put_loop ::
  "'a list \<Rightarrow> ('a, 's) StreamShuffler \<Rightarrow> 's \<Rightarrow> error option \<times> ('a, 's) StreamShuffler \<times> 's" where
  "put_loop [] sh s = (None, sh, s)"
| "put_loop (v # vs) sh s =
     (case Put v sh s of
        (Some e, sh', s') \<Rightarrow> (Some e, sh', s')
      | (None, sh', s') \<Rightarrow> put_loop vs sh' s')"

definition put_then_end ::
  "'a list \<Rightarrow> ('a, 's) StreamShuffler \<Rightarrow> 's \<Rightarrow> error option \<times> 's" where
  "put_then_end vs sh s =
     (case put_loop vs sh s of
        (Some e, sh', s') \<Rightarrow> (Some e, s')
      | (None, sh', s') \<Rightarrow> (case End sh' s' of (err, sh'', s'') \<Rightarrow> (err, s'')))"

text \<open>
  The slot sequence a permutation gives to a list of items: slot \<open>d\<close> carries the
  item whose destination is \<open>d\<close>, or the placeholder when no item was put for it.
\<close>

definition slot_item :: "(nat \<rightharpoonup> 'a) \<Rightarrow> 'a \<Rightarrow> nat \<Rightarrow> 'a" where
  "slot_item m ph d = (case m d of None \<Rightarrow> ph | Some v \<Rightarrow> v)"

definition shuffled :: "Permutation \<Rightarrow> 'a \<Rightarrow> 'a list \<Rightarrow> 'a list" where
  "shuffled p ph vs = map (slot_item (map_of (zip p vs)) ph) [0..<length p]"

text \<open>A consumer that only records what it is given.\<close>

definition record_emit :: "('a, 'a list) ConsumeFunc" where
  "record_emit v log = (None, log @ [v])"

subsection \<open>Byte channels\<close>

text \<open>
  An \<^verbatim>\<open>io.Writer\<close>: the bytes accepted so far, and how many more the channel takes
  before it fails (\<open>None\<close>: it never fails). A write that does not fit is a short
  write: the bytes that fit are accepted and an error is returned with their number.
\<close>

record Writer =
  written :: "byte list"
  room :: "nat option"

definition Write :: "Writer \<Rightarrow> byte list \<Rightarrow> nat \<times> error option \<times> Writer" where
  "Write w bs =
     (case room w of
        None \<Rightarrow> (length bs, None, w\<lparr>written := written w @ bs\<rparr>)
      | Some n \<Rightarrow>
          if length bs \<le> n
          then (length bs, None, w\<lparr>written := written w @ bs, room := Some (n - length bs)\<rparr>)
          else (n, Some IOError, w\<lparr>written := written w @ take n bs, room := Some 0\<rparr>))"

text \<open>
  \<^verbatim>\<open>io.Copy(w, r)\<close> from a reader over the bytes \<open>bs\<close>: the number of bytes copied
  and the first error of the writer.
\<close>

definition Copy :: "Writer \<Rightarrow> byte list \<Rightarrow> nat \<times> error option \<times> Writer" where
  "Copy w bs = Write w bs"

text \<open>
  An \<^verbatim>\<open>io.ByteReader\<close>: the bytes still to come and the error it returns once they
  are used up, \<open>EOF\<close> for a stream that ends cleanly.
\<close>

record ByteReader =
  pending :: "byte list"
  ending :: error

definition ReadByte :: "ByteReader \<Rightarrow> error + (byte \<times> ByteReader)" where
  "ReadByte r =
     (case pending r of
        [] \<Rightarrow> Inl (ending r)
      | b # bs \<Rightarrow> Inr (b, r\<lparr>pending := bs\<rparr>))"

subsection \<open>Varint and bit codecs\<close>

text \<open>
  Modelled from the spec: \<^verbatim>\<open>writeVarint\<close> is missing from the sources. Section 4.1:
  a non-negative integer in little-endian base 128, seven data bits per byte, the
  high bit set when more bytes follow.
\<close>

function varint :: "nat \<Rightarrow> byte list" where
  "varint n = (if n < 128 then [of_nat n] else of_nat (n mod 128 + 128) # varint (n div 128))"
  by pat_completeness auto
termination
  by (relation "measure (\<lambda>n. n)") auto

declare varint.simps [simp del]

definition writeVarint :: "Writer \<Rightarrow> int \<Rightarrow> error option \<times> Writer" where
  "writeVarint w v = (case Write w (varint (nat v)) of (n, err, w') \<Rightarrow> (err, w'))"

text \<open>
  Modelled from the spec: \<^verbatim>\<open>newBitReader\<close> and \<^verbatim>\<open>ReadBit\<close> are missing from the
  sources. Section 4.2: one bit at a time from the underlying byte source, most
  significant bit first; a byte is fetched when the current one is used up, and the
  error of the byte source is the error of the read.
\<close>

record bitReader =
  src :: ByteReader
  cur :: byte
  nbits :: nat

definition newBitReader :: "ByteReader \<Rightarrow> bitReader" where
  "newBitReader r = \<lparr>src = r, cur = 0, nbits = 0\<rparr>"

definition ReadBit :: "bitReader \<Rightarrow> error + (bool \<times> bitReader)" where
  "ReadBit br =
     (if nbits br = 0 then
        (case ReadByte (src br) of
           Inl e \<Rightarrow> Inl e
         | Inr (b, r') \<Rightarrow> Inr (bit b 7, br\<lparr>src := r', cur := push_bit 1 b, nbits := 7\<rparr>))
      else Inr (bit (cur br) 7, br\<lparr>cur := push_bit 1 (cur br), nbits := nbits br - 1\<rparr>))"

text \<open>Reading \<open>n\<close> bits in a row; used to state how much of a wishlist was consumed.\<close>

fun read_bits :: "nat \<Rightarrow> bitReader \<Rightarrow> error + (bool list \<times> bitReader)" where
  "read_bits 0 br = Inr ([], br)"
| "read_bits (Suc n) br =
     (case ReadBit br of
        Inl e \<Rightarrow> Inl e
      | Inr (b, br') \<Rightarrow>
          (case read_bits n br' of
             Inl e \<Rightarrow> Inl e
           | Inr (bs, br'') \<Rightarrow> Inr (b # bs, br'')))"

subsection \<open>Files and storage\<close>

text \<open>
  Modelled from the spec: the package \<^verbatim>\<open>cafs\<close> (\<^verbatim>\<open>File\<close>, \<^verbatim>\<open>FileStorage\<close>) is missing
  from the sources. Sections 3 and 6: a file is an ordered sequence of chunks, each a
  key and its bytes, and its size is the total number of bytes; a storage resolves a
  key to a chunk or fails, and every handle it gives out has to be disposed. A handle
  is itself a \<^verbatim>\<open>cafs.File\<close>; the storage numbers the handles it gives out and keeps
  the order in which they were acquired and disposed.
\<close>

record File =
  handle :: nat
  chunks :: "(SKey \<times> byte list) list"

definition Size :: "File \<Rightarrow> int" where
  "Size f = int (sum_list (map (\<lambda>c. length (snd c)) (chunks f)))"

definition Open :: "File \<Rightarrow> byte list" where
  "Open f = concat (map snd (chunks f))"

datatype event = Acquired nat | Disposed nat

record FileStorage =
  blobs :: "SKey \<rightharpoonup> byte list"
  issued :: nat
  events :: "event list"

definition Get :: "FileStorage \<Rightarrow> SKey \<Rightarrow> error + (File \<times> FileStorage)" where
  "Get st k =
     (case blobs st k of
        None \<Rightarrow> Inl ChunkNotFound
      | Some bs \<Rightarrow>
          Inr (\<lparr>handle = issued st, chunks = [(k, bs)]\<rparr>,
               st\<lparr>issued := Suc (issued st), events := events st @ [Acquired (issued st)]\<rparr>))"

definition Dispose :: "File \<Rightarrow> FileStorage \<Rightarrow> FileStorage" where
  "Dispose f st = st\<lparr>events := events st @ [Disposed (handle f)]\<rparr>"

text \<open>A file is held by a storage when each of its chunks resolves to its bytes.\<close>

definition stored :: "FileStorage \<Rightarrow> File \<Rightarrow> bool" where
  "stored st f = list_all (\<lambda>c. blobs st (fst c) = Some (snd c)) (chunks f)"

subsection \<open>WriteChunkHashes\<close>

text \<open>
  The local \<^verbatim>\<open>type chunk struct { key cafs.SKey; size int64 }\<close> is a pair, and
  \<^verbatim>\<open>emptyChunk\<close> the pair of the empty key and size 0. \<open>writeEntry\<close> is the closure
  passed to \<^verbatim>\<open>NewStreamShuffler\<close>: the key bytes, then the size as varint.
\<close>

type_synonym chunk = "SKey \<times> int"

definition emptyChunk :: chunk where
  "emptyChunk = (emptyKey, 0)"

definition writeEntry :: "(chunk, Writer) ConsumeFunc" where
  "writeEntry c w =
     (case Write w (keyBytes (fst c)) of
        (n, Some e, w') \<Rightarrow> (Some e, w')
      | (n, None, w') \<Rightarrow> writeVarint w' (snd c))"

text \<open>What the iterator \<^verbatim>\<open>file.Chunks()\<close> yields: \<^verbatim>\<open>Key()\<close> and \<^verbatim>\<open>Size()\<close> of each chunk.\<close>

definition chunk_infos :: "File \<Rightarrow> chunk list" where
  "chunk_infos f = map (\<lambda>c. (fst c, int (length (snd c)))) (chunks f)"

definition chunk_keys :: "File \<Rightarrow> SKey list" where
  "chunk_keys f = map fst (chunks f)"

definition WriteChunkHashes :: "File \<Rightarrow> Permutation \<Rightarrow> Writer \<Rightarrow> error option \<times> Writer" where
  "WriteChunkHashes file p w =
     put_then_end (chunk_infos file) (NewStreamShuffler p emptyChunk writeEntry) w"

text \<open>The bytes of one entry of the hash list.\<close>

definition entry_bytes :: "chunk \<Rightarrow> byte list" where
  "entry_bytes c = keyBytes (fst c) @ varint (nat (snd c))"

subsection \<open>forEachChunk\<close>

text \<open>
  What \<^verbatim>\<open>forEachChunk\<close> acts on: the bit reader over the wishlist (it owns the byte
  reader \<^verbatim>\<open>r\<close>, which the final \<^verbatim>\<open>r.ReadByte()\<close> reads again), the storage, and the
  state of the delegate \<^verbatim>\<open>f\<close>.
\<close>

record 'u world =
  bits :: bitReader
  storage :: FileStorage
  user :: 'u

type_synonym 'u delegate = "File \<Rightarrow> bool \<Rightarrow> 'u \<Rightarrow> error option \<times> 'u"

text \<open>The closure passed to \<^verbatim>\<open>NewStreamShuffler\<close> in \<^verbatim>\<open>forEachChunk\<close>.\<close>

definition onSlot :: "'u delegate \<Rightarrow> (SKey, 'u world) ConsumeFunc" where
  "onSlot f key wd =
     (case ReadBit (bits wd) of
        Inl err \<Rightarrow> (Some (WishlistTooShort err), wd)
      | Inr (b, br) \<Rightarrow>
          if key = emptyKey then
            (if b then (Some SpuriousRequest, wd\<lparr>bits := br\<rparr>) else (None, wd\<lparr>bits := br\<rparr>))
          else
            (case Get (storage wd) key of
               Inl err \<Rightarrow> (Some err, wd\<lparr>bits := br\<rparr>)
             | Inr (chunk, st) \<Rightarrow>
                 (case f chunk b (user wd) of
                    (err, u') \<Rightarrow> (err, \<lparr>bits = br, storage = Dispose chunk st, user = u'\<rparr>))))"

definition forEachChunk ::
  "FileStorage \<Rightarrow> File \<Rightarrow> ByteReader \<Rightarrow> Permutation \<Rightarrow> 'u delegate \<Rightarrow> 'u \<Rightarrow>
     error option \<times> 'u world" where
  "forEachChunk st file r p f u =
     (case put_then_end (chunk_keys file) (NewStreamShuffler p emptyKey (onSlot f))
             \<lparr>bits = newBitReader r, storage = st, user = u\<rparr> of
        (Some e, wd) \<Rightarrow> (Some e, wd)
      | (None, wd) \<Rightarrow>
          (case ReadByte (src (bits wd)) of
             Inl e \<Rightarrow> if e = EOF then (None, wd) else (Some WishlistTooLong, wd)
           | Inr (b, r') \<Rightarrow> (Some WishlistTooLong, wd\<lparr>bits := (bits wd)\<lparr>src := r'\<rparr>\<rparr>)))"

subsection \<open>WriteChunkData\<close>

text \<open>
  A \<^verbatim>\<open>TransferStatusCallback\<close> acts on the state \<open>'o\<close> of whoever observes the
  transfer; \<open>None\<close> is a \<^verbatim>\<open>nil\<close> callback. The variables the closure of
  \<^verbatim>\<open>WriteChunkData\<close> captures are the writer, the two counters and the observer.
\<close>

type_synonym 'o TransferStatusCallback = "int \<Rightarrow> int \<Rightarrow> 'o \<Rightarrow> 'o"

record 'o transfer =
  out :: Writer
  bytesToTransfer :: int
  bytesTransferred :: int
  observer :: 'o

definition notify :: "'o TransferStatusCallback option \<Rightarrow> 'o transfer \<Rightarrow> 'o transfer" where
  "notify cb t =
     (case cb of
        None \<Rightarrow> t
      | Some g \<Rightarrow> t\<lparr>observer := g (bytesToTransfer t) (bytesTransferred t) (observer t)\<rparr>)"

definition sendChunk :: "'o TransferStatusCallback option \<Rightarrow> 'o transfer delegate" where
  "sendChunk cb chunk requested t =
     (if requested then
        (case writeVarint (out t) (Size chunk) of
           (Some e, w') \<Rightarrow> (Some e, t\<lparr>out := w'\<rparr>)
         | (None, w') \<Rightarrow>
             (case Copy w' (Open chunk) of
                (n, Some e, w'') \<Rightarrow> (Some e, t\<lparr>out := w''\<rparr>)
              | (n, None, w'') \<Rightarrow>
                  (None, notify cb (t\<lparr>out := w'', bytesTransferred := bytesTransferred t + int n\<rparr>))))
      else (None, notify cb (t\<lparr>bytesToTransfer := bytesToTransfer t - Size chunk\<rparr>)))"

definition WriteChunkData ::
  "FileStorage \<Rightarrow> File \<Rightarrow> ByteReader \<Rightarrow> Permutation \<Rightarrow> Writer \<Rightarrow>
     'o TransferStatusCallback option \<Rightarrow> 'o \<Rightarrow> error option \<times> 'o transfer world" where
  "WriteChunkData st file r p w cb ob =
     forEachChunk st file r p (sendChunk cb)
       (notify cb \<lparr>out = w, bytesToTransfer = Size file, bytesTransferred = 0, observer = ob\<rparr>)"

text \<open>A callback that only records the snapshots it is given.\<close>

definition record_status :: "(int \<times> int) list TransferStatusCallback" where
  "record_status a b log = log @ [(a, b)]"

subsection \<open>Handles given out and disposed\<close>

text \<open>
  Every handle the storage gave out since it was \<open>st0\<close> has been disposed, once, right
  after it was acquired and before the next one was.
\<close>

definition handles_disposed :: "FileStorage \<Rightarrow> FileStorage \<Rightarrow> bool" where
  "handles_disposed st0 st =
     (issued st0 \<le> issued st \<and>
      events st = events st0 @ concat (map (\<lambda>i. [Acquired i, Disposed i]) [issued st0..<issued st]))"

subsection \<open>What a run of WriteChunkData is expected to do\<close>

text \<open>
  The functions below describe a run from the outside: the slots paired with the
  wishlist bits read for them, the chunks that are requested and those that are
  declined, the chunk-data stream, and the progress snapshots. They are what the
  theorems about \<^verbatim>\<open>WriteChunkData\<close> compare the embedded code with.
\<close>

definition chunk_of :: "(SKey \<rightharpoonup> byte list) \<Rightarrow> SKey \<Rightarrow> byte list" where
  "chunk_of B k = (case B k of None \<Rightarrow> [] | Some bs \<Rightarrow> bs)"

definition requested :: "(SKey \<rightharpoonup> byte list) \<Rightarrow> (SKey \<times> bool) list \<Rightarrow> byte list list" where
  "requested B kbs = map (\<lambda>kb. chunk_of B (fst kb)) (filter (\<lambda>kb. fst kb \<noteq> emptyKey \<and> snd kb) kbs)"

definition declined :: "(SKey \<rightharpoonup> byte list) \<Rightarrow> (SKey \<times> bool) list \<Rightarrow> byte list list" where
  "declined B kbs = map (\<lambda>kb. chunk_of B (fst kb)) (filter (\<lambda>kb. fst kb \<noteq> emptyKey \<and> \<not> snd kb) kbs)"

definition data_stream :: "byte list list \<Rightarrow> byte list" where
  "data_stream ds = concat (map (\<lambda>d. varint (length d) @ d) ds)"

fun progress ::
  "(SKey \<rightharpoonup> byte list) \<Rightarrow> int \<times> int \<Rightarrow> (SKey \<times> bool) list \<Rightarrow> (int \<times> int) list" where
  "progress B s [] = []"
| "progress B s ((k, b) # kbs) =
     (if k = emptyKey then progress B s kbs
      else if b then (fst s, snd s + int (length (chunk_of B k))) #
                     progress B (fst s, snd s + int (length (chunk_of B k))) kbs
      else (fst s - int (length (chunk_of B k)), snd s) #
           progress B (fst s - int (length (chunk_of B k)), snd s) kbs)"

text \<open>One snapshot may follow another: no more to transfer, no less transferred.\<close>

definition may_follow :: "int \<times> int \<Rightarrow> int \<times> int \<Rightarrow> bool" where
  "may_follow a b = (fst b \<le> fst a \<and> snd a \<le> snd b)"

text \<open>The observer after a callback \<open>g\<close> has been given a list of snapshots in turn.\<close>

definition apply_status :: "'o TransferStatusCallback \<Rightarrow> 'o \<Rightarrow> (int \<times> int) list \<Rightarrow> 'o" where
  "apply_status g ob snaps = foldl (\<lambda>ob s. g (fst s) (snd s) ob) ob snaps"

text \<open>
  The size a slot accounts for: nothing for a placeholder, the size of the stored chunk
  otherwise. A list of snapshots is well tracked when it starts with the size \<open>S\<close> of
  the file and 0, is ordered by \<open>may_follow\<close>, and ends with the current counters.
\<close>

definition due :: "(SKey \<rightharpoonup> byte list) \<Rightarrow> SKey \<Rightarrow> int" where
  "due B k = (if k = emptyKey then 0 else int (length (chunk_of B k)))"

definition tracked :: "int \<Rightarrow> (int \<times> int) list transfer \<Rightarrow> bool" where
  "tracked S t =
     (observer t \<noteq> [] \<and> hd (observer t) = (S, 0) \<and> sorted_wrt may_follow (observer t) \<and>
      last (observer t) = (bytesToTransfer t, bytesTransferred t))"

subsection \<open>The receiving side\<close>

text \<open>
  Modelled from the spec: the receiver (\<^verbatim>\<open>Builder\<close>, \<^verbatim>\<open>WriteWishList\<close>,
  \<^verbatim>\<open>ReconstructFileFromRequestedChunks\<close>), the varint decoder and the bit writer are
  missing from the sources; only the test that drives them is there. They follow
  sections 4.1, 4.2, 4.6 and 4.8 of the spec. Each stage is a function of the bytes it
  is sent: the three channels of the test are pipes in memory, and a stage fails only
  when its input is malformed or ends early.
\<close>

text \<open>
  Modelled from the spec: decoding a varint fails when the bytes end before a
  terminating byte or when more than 10 bytes are consumed.
\<close>

fun decode_varint :: "nat \<Rightarrow> byte list \<Rightarrow> error + (nat \<times> byte list)" where
  "decode_varint 0 bs = Inl MalformedVarint"
| "decode_varint (Suc n) [] = Inl MalformedVarint"
| "decode_varint (Suc n) (b # bs) =
     (if unat b < 128 then Inr (unat b, bs)
      else (case decode_varint n bs of
              Inl e \<Rightarrow> Inl e
            | Inr (v, rest) \<Rightarrow> Inr (unat b - 128 + 128 * v, rest)))"

definition readVarint :: "byte list \<Rightarrow> error + (nat \<times> byte list)" where
  "readVarint bs = decode_varint 10 bs"

text \<open>A key from its bytes, most significant byte first: the inverse of \<open>keyBytes\<close>.\<close>

definition keyOfBytes :: "byte list \<Rightarrow> SKey" where
  "keyOfBytes bs = foldl (\<lambda>acc b. push_bit 8 acc OR ucast b) 0 bs"

text \<open>
  Modelled from the spec: the bit writer buffers bits, most significant bit first,
  emits a byte once 8 bits are buffered, and on finalising emits a last partial byte
  padded with zero bits. \<open>byte_of\<close> is the byte of up to 8 buffered bits.
\<close>

fun set_bits :: "nat \<Rightarrow> bool list \<Rightarrow> byte" where
  "set_bits i [] = 0"
| "set_bits i (b # bs) = (if b then push_bit (7 - i) 1 else 0) OR set_bits (Suc i) bs"

definition byte_of :: "bool list \<Rightarrow> byte" where
  "byte_of ps = set_bits 0 ps"

record bitWriter =
  flushed :: "byte list"
  buffered :: "bool list"

definition newBitWriter :: bitWriter where
  "newBitWriter = \<lparr>flushed = [], buffered = []\<rparr>"

definition WriteBit :: "bool \<Rightarrow> bitWriter \<Rightarrow> bitWriter" where
  "WriteBit b bw =
     (if length (buffered bw) = 7
      then \<lparr>flushed = flushed bw @ [byte_of (buffered bw @ [b])], buffered = []\<rparr>
      else bw\<lparr>buffered := buffered bw @ [b]\<rparr>)"

definition Flush :: "bitWriter \<Rightarrow> byte list" where
  "Flush bw = (if buffered bw = [] then flushed bw else flushed bw @ [byte_of (buffered bw)])"

text \<open>
  Modelled from the spec: what the receiver remembers of a slot (section 4.6): a
  placeholder, a chunk it already holds (resolved from its own storage), or a chunk
  it asks for, with the advertised size.
\<close>

datatype memo = Placeholder | Local SKey "byte list" | Wanted SKey nat

definition memo_of :: "(SKey \<rightharpoonup> byte list) \<Rightarrow> SKey \<times> nat \<Rightarrow> memo" where
  "memo_of B e =
     (if fst e = emptyKey then Placeholder
      else (case B (fst e) of Some d \<Rightarrow> Local (fst e) d | None \<Rightarrow> Wanted (fst e) (snd e)))"

fun wanted :: "memo \<Rightarrow> bool" where
  "wanted (Wanted k n) = True"
| "wanted m = False"

text \<open>
  Modelled from the spec: the hash list is read slot by slot, a key of fixed width
  and a varint size each (the inverse of section 4.4), once per slot of the permutation.
\<close>

fun read_entries :: "nat \<Rightarrow> byte list \<Rightarrow> error + (SKey \<times> nat) list" where
  "read_entries 0 bs = Inr []"
| "read_entries (Suc n) bs =
     (if length bs < KeySize then Inl IOError
      else (case readVarint (drop KeySize bs) of
              Inl e \<Rightarrow> Inl e
            | Inr (sz, rest) \<Rightarrow>
                (case read_entries n rest of
                   Inl e \<Rightarrow> Inl e
                 | Inr es \<Rightarrow> Inr ((keyOfBytes (take KeySize bs), sz) # es))))"

text \<open>
  Modelled from the spec (section 4.6): one bit per slot, in slot order, true for a
  chunk that is asked for, false for a chunk already held and for a placeholder;
  the bit writer is flushed at the end.
\<close>

definition WriteWishList ::
  "(SKey \<rightharpoonup> byte list) \<Rightarrow> Permutation \<Rightarrow> byte list \<Rightarrow> error + (memo list \<times> byte list)" where
  "WriteWishList B p hashes =
     (case read_entries (length p) hashes of
        Inl e \<Rightarrow> Inl e
      | Inr es \<Rightarrow>
          Inr (map (memo_of B) es,
               Flush (fold (\<lambda>m bw. WriteBit (wanted m) bw) (map (memo_of B) es) newBitWriter)))"

text \<open>
  Modelled from the spec (section 4.8): for each slot in order, a chunk that was asked
  for is read from the chunk-data stream, a varint size and then that many bytes; a
  chunk already held is taken from what was resolved before; a placeholder contributes
  nothing. A short read or a size that differs from the advertised one aborts.
\<close>

fun collect :: "memo list \<Rightarrow> byte list \<Rightarrow> error + (SKey \<times> byte list) option list" where
  "collect [] bs = Inr []"
| "collect (Placeholder # ms) bs =
     (case collect ms bs of Inl e \<Rightarrow> Inl e | Inr cs \<Rightarrow> Inr (None # cs))"
| "collect (Local k d # ms) bs =
     (case collect ms bs of Inl e \<Rightarrow> Inl e | Inr cs \<Rightarrow> Inr (Some (k, d) # cs))"
| "collect (Wanted k sz # ms) bs =
     (case readVarint bs of
        Inl e \<Rightarrow> Inl e
      | Inr (n, rest) \<Rightarrow>
          if n \<noteq> sz \<or> length rest < n then Inl ShortChunkRead
          else (case collect ms (drop n rest) of
                  Inl e \<Rightarrow> Inl e
                | Inr cs \<Rightarrow> Inr (Some (k, take n rest) # cs)))"

text \<open>
  Modelled from the spec: the spec leaves implicit how the receiver turns the slot
  order back into the order of the file. Following section 3 (a permutation describes
  the destination slot of a logical position "and the inverse") and section 4.6 (the
  receiver uses "a Stream Shuffler matching the sender's permutation"), the chunk of
  slot \<open>perm ! i\<close> is placed at logical position \<open>i\<close>, and placeholders are dropped.
\<close>

definition unshuffle :: "Permutation \<Rightarrow> 'a option list \<Rightarrow> 'a list" where
  "unshuffle p cs = concat (map (\<lambda>i. case cs ! (p ! i) of None \<Rightarrow> [] | Some c \<Rightarrow> [c]) [0..<length p])"

definition ReconstructFile ::
  "Permutation \<Rightarrow> memo list \<Rightarrow> byte list \<Rightarrow> error + File" where
  "ReconstructFile p ms bs =
     (case collect ms bs of
        Inl e \<Rightarrow> Inl e
      | Inr cs \<Rightarrow> Inr \<lparr>handle = 0, chunks = unshuffle p cs\<rparr>)"

text \<open>
  The test \<^verbatim>\<open>testWithParams\<close>: the hash list goes from the sender to the receiver, the
  wishlist back, the chunk data to the receiver, over pipes that do not fail. The four
  stages run one after the other here; each consumes what the one before has produced.
\<close>

definition remote_sync ::
  "FileStorage \<Rightarrow> File \<Rightarrow> Permutation \<Rightarrow> (SKey \<rightharpoonup> byte list) \<Rightarrow> error + File" where
  "remote_sync stA fileA p B =
     (case WriteChunkHashes fileA p \<lparr>written = [], room = None\<rparr> of
        (Some e, w1) \<Rightarrow> Inl e
      | (None, w1) \<Rightarrow>
          (case WriteWishList B p (written w1) of
             Inl e \<Rightarrow> Inl e
           | Inr (ms, wishlist) \<Rightarrow>
               (case WriteChunkData stA fileA \<lparr>pending = wishlist, ending = EOF\<rparr> p
                       \<lparr>written = [], room = None\<rparr> None () of
                  (Some e, wd) \<Rightarrow> Inl e
                | (None, wd) \<Rightarrow> ReconstructFile p ms (written (out (user wd))))))"

section \<open>The stream shuffler emits the slot sequence\<close>

lemma emit_all_append:
  "emit_all c (xs @ ys) s =
     (case emit_all c xs s of (Some e, s') \<Rightarrow> (Some e, s') | (None, s') \<Rightarrow> emit_all c ys s')"
  by (induction xs arbitrary: s) (auto split: prod.splits option.splits)

lemma drain_keeps:
  "drain sh s = (err, sh', s') \<Longrightarrow>
     perm sh' = perm sh \<and> placeholder sh' = placeholder sh \<and> consume sh' = consume sh \<and>
     count sh' = count sh \<and> cursor sh \<le> cursor sh' \<and>
     (\<forall>d. cursor sh' \<le> d \<longrightarrow> buffer sh' d = buffer sh d) \<and>
     dom (buffer sh') \<subseteq> dom (buffer sh)"
proof (induction sh s arbitrary: err sh' s' rule: drain.induct)
  case (1 sh s)
  show ?case
  proof (cases "cursor sh < length (perm sh)")
    case False
    with "1.prems" show ?thesis by (simp add: drain.simps)
  next
    case True
    show ?thesis
    proof (cases "buffer sh (cursor sh)")
      case None
      with True "1.prems" show ?thesis by (simp add: drain.simps)
    next
      case (Some v)
      obtain r t where ct: "consume sh v s = (r, t)" by (cases "consume sh v s")
      show ?thesis
      proof (cases r)
        case (Some e)
        with True \<open>buffer sh (cursor sh) = Some v\<close> ct "1.prems" show ?thesis
          by (simp add: drain.simps)
      next
        case None
        let ?sh1 = "sh\<lparr>buffer := (buffer sh)(cursor sh := None), cursor := Suc (cursor sh)\<rparr>"
        from True \<open>buffer sh (cursor sh) = Some v\<close> ct None "1.prems"
        have d: "drain ?sh1 t = (err, sh', s')"
          by (subst (asm) drain.simps) simp
        from "1.IH"[OF True \<open>buffer sh (cursor sh) = Some v\<close> ct[symmetric] _ d] None
        show ?thesis by (auto split: if_splits)
      qed
    qed
  qed
qed

lemma drain_future:
  "buffer sh \<subseteq>\<^sub>m g \<Longrightarrow> c = consume sh \<Longrightarrow> n = length (perm sh) \<Longrightarrow>
   (case drain sh s of
      (Some e, sh', s') \<Rightarrow> (Some e, s')
    | (None, sh', s') \<Rightarrow> emit_all c (map (slot_item g ph) [cursor sh'..<n]) s') =
   emit_all c (map (slot_item g ph) [cursor sh..<n]) s"
proof (induction sh s rule: drain.induct)
  case (1 sh s)
  note c = \<open>c = consume sh\<close> and n = \<open>n = length (perm sh)\<close>
  show ?case
  proof (cases "cursor sh < length (perm sh)")
    case False
    then show ?thesis by (simp add: drain.simps n)
  next
    case True
    show ?thesis
    proof (cases "buffer sh (cursor sh)")
      case None
      with True show ?thesis by (simp add: drain.simps)
    next
      case (Some v)
      with "1.prems" have g: "g (cursor sh) = Some v"
        by (auto simp: map_le_def dom_def)
      have sv: "slot_item g ph (cursor sh) = v"
        using g by (simp add: slot_item_def)
      have up: "[cursor sh..<n] = cursor sh # [Suc (cursor sh)..<n]"
        using True by (simp add: upt_conv_Cons n)
      obtain r t where ct: "consume sh v s = (r, t)" by (cases "consume sh v s")
      show ?thesis
      proof (cases r)
        case (Some e)
        with True \<open>buffer sh (cursor sh) = Some v\<close> ct up sv c show ?thesis
          by (simp add: drain.simps)
      next
        case None
        let ?sh1 = "sh\<lparr>buffer := (buffer sh)(cursor sh := None), cursor := Suc (cursor sh)\<rparr>"
        have le: "buffer ?sh1 \<subseteq>\<^sub>m g"
          using "1.prems"(1) by (auto simp: map_le_def)
        have ih: "(case drain ?sh1 t of
             (Some e, sh', s') \<Rightarrow> (Some e, s')
           | (None, sh', s') \<Rightarrow> emit_all c (map (slot_item g ph) [cursor sh'..<n]) s') =
           emit_all c (map (slot_item g ph) [cursor ?sh1..<n]) t"
          using ct None c n
          by (intro "1.IH"[OF True \<open>buffer sh (cursor sh) = Some v\<close> ct[symmetric] _ le]) simp_all
        have dr: "drain sh s = drain ?sh1 t"
          using True \<open>buffer sh (cursor sh) = Some v\<close> ct None by (subst drain.simps) simp
        have rhs: "emit_all c (map (slot_item g ph) [cursor sh..<n]) s =
              emit_all c (map (slot_item g ph) [Suc (cursor sh)..<n]) t"
          using ct None c by (simp add: up sv)
        show ?thesis
          unfolding dr rhs using ih by simp
      qed
    qed
  qed
qed

lemma fill_future:
  "(case fill sh s of (err, sh', s') \<Rightarrow> (err, s')) =
   emit_all (consume sh)
     (map (slot_item (buffer sh) (placeholder sh)) [cursor sh..<length (perm sh)]) s"
proof (induction sh s rule: fill.induct)
  case (1 sh s)
  show ?case
  proof (cases "cursor sh < length (perm sh)")
    case False
    then show ?thesis by (simp add: fill.simps)
  next
    case True
    let ?v = "case buffer sh (cursor sh) of None \<Rightarrow> placeholder sh | Some v \<Rightarrow> v"
    have up: "[cursor sh..<length (perm sh)] = cursor sh # [Suc (cursor sh)..<length (perm sh)]"
      using True by (simp add: upt_conv_Cons)
    obtain r t where ct: "consume sh ?v s = (r, t)" by (cases "consume sh ?v s")
    have sv: "slot_item (buffer sh) (placeholder sh) (cursor sh) = ?v"
      by (simp add: slot_item_def)
    show ?thesis
    proof (cases r)
      case (Some e)
      with True ct up sv show ?thesis
        by (simp add: fill.simps)
    next
      case None
      let ?sh1 = "sh\<lparr>buffer := (buffer sh)(cursor sh := None), cursor := Suc (cursor sh)\<rparr>"
      have fl: "fill sh s = fill ?sh1 t"
        using True ct None by (subst fill.simps) simp
      have same: "map (slot_item (buffer ?sh1) (placeholder sh)) [Suc (cursor sh)..<length (perm sh)]
                = map (slot_item (buffer sh) (placeholder sh)) [Suc (cursor sh)..<length (perm sh)]"
        by (rule map_cong) (auto simp: slot_item_def)
      from "1.IH"[OF True ct[symmetric] _] None
      have "(case fill ?sh1 t of (err, sh', s') \<Rightarrow> (err, s')) =
            emit_all (consume sh)
              (map (slot_item (buffer ?sh1) (placeholder sh)) [Suc (cursor sh)..<length (perm sh)]) t"
        by (simp del: fun_upd_apply)
      then have ih': "(case fill ?sh1 t of (err, sh', s') \<Rightarrow> (err, s')) =
            emit_all (consume sh)
              (map (slot_item (buffer sh) (placeholder sh)) [Suc (cursor sh)..<length (perm sh)]) t"
        by (simp only: same)
      have rhs: "emit_all (consume sh)
              (map (slot_item (buffer sh) (placeholder sh)) [cursor sh..<length (perm sh)]) s =
            emit_all (consume sh)
              (map (slot_item (buffer sh) (placeholder sh)) [Suc (cursor sh)..<length (perm sh)]) t"
        using ct None by (simp add: up sv)
      show ?thesis
        unfolding fl rhs by (rule ih')
    qed
  qed
qed


lemma put_then_end_Nil:
  "put_then_end [] sh s = (case fill sh s of (err, sh', s') \<Rightarrow> (err, s'))"
  by (simp add: put_then_end_def End_def)

lemma put_then_end_Cons:
  "put_then_end (v # vs) sh s =
     (case Put v sh s of
        (Some e, sh', s') \<Rightarrow> (Some e, s')
      | (None, sh', s') \<Rightarrow> put_then_end vs sh' s')"
  by (simp add: put_then_end_def split: prod.splits option.splits)

lemma put_then_end_future:
  "distinct (perm sh) \<Longrightarrow> count sh + length vs \<le> length (perm sh) \<Longrightarrow>
   dom (buffer sh) \<inter> set (drop (count sh) (perm sh)) = {} \<Longrightarrow>
   c = consume sh \<Longrightarrow> p = perm sh \<Longrightarrow> ph = placeholder sh \<Longrightarrow>
   put_then_end vs sh s =
     emit_all c (map (slot_item (buffer sh ++ map_of (zip (drop (count sh) p) vs)) ph)
                   [cursor sh..<length p]) s"
proof (induction vs arbitrary: sh s)
  case Nil
  then show ?case
    by (simp add: put_then_end_Nil fill_future)
next
  case (Cons v vs)
  let ?j = "count sh"
  let ?d = "p ! ?j"
  let ?m = "map_of (zip (drop (Suc ?j) p) vs)"
  let ?sh1 = "sh\<lparr>buffer := (buffer sh)(?d \<mapsto> v), count := Suc ?j\<rparr>"
  let ?g = "(buffer sh)(?d \<mapsto> v) ++ ?m"
  note p = \<open>p = perm sh\<close> and c = \<open>c = consume sh\<close> and ph = \<open>ph = placeholder sh\<close>
  from Cons.prems(2) have j: "?j < length p" by (simp add: p)
  have dr: "drop ?j p = ?d # drop (Suc ?j) p"
    using j by (simp add: Cons_nth_drop_Suc)
  have "distinct (drop ?j p)"
    using Cons.prems(1) by (simp add: p)
  then have dist: "distinct (?d # drop (Suc ?j) p)"
    by (simp only: dr)
  have domm: "dom ?m \<subseteq> set (drop (Suc ?j) p)"
    by (auto simp: dom_map_of_conv_image_fst dest!: set_zip_leftD)
  have dm: "?d \<notin> dom ?m"
    using dist domm by auto
  have disj: "dom (buffer sh) \<inter> dom ?m = {}"
    using Cons.prems(3) domm by (auto simp: p[symmetric] dr)
  have final: "buffer sh ++ map_of (zip (drop ?j p) (v # vs)) = ?g"
    using dm by (simp add: dr map_add_upd_left)
  have le: "buffer ?sh1 \<subseteq>\<^sub>m ?g"
    unfolding map_le_def
  proof
    fix x
    assume "x \<in> dom (buffer ?sh1)"
    then have "x \<notin> dom ?m"
      using dm disj by auto
    then show "buffer ?sh1 x = ?g x"
      by (simp add: map_add_dom_app_simps(3))
  qed
  have put: "Put v sh s = drain ?sh1 s"
    using j by (simp add: Put_def p)
  have fut: "(case drain ?sh1 s of
      (Some e, sh', s') \<Rightarrow> (Some e, s')
    | (None, sh', s') \<Rightarrow> emit_all c (map (slot_item ?g ph) [cursor sh'..<length p]) s') =
    emit_all c (map (slot_item ?g ph) [cursor ?sh1..<length p]) s"
    by (rule drain_future[OF le]) (simp_all add: c p)
  obtain err sh' s' where d: "drain ?sh1 s = (err, sh', s')"
    by (cases "drain ?sh1 s")
  show ?case
  proof (cases err)
    case (Some e)
    with fut d show ?thesis
      by (simp add: put_then_end_Cons put final)
  next
    case None
    from drain_keeps[OF d]
    have k: "perm sh' = p" "placeholder sh' = ph" "consume sh' = c" "count sh' = Suc ?j"
      "\<forall>x. cursor sh' \<le> x \<longrightarrow> buffer sh' x = buffer ?sh1 x"
      "dom (buffer sh') \<subseteq> dom (buffer ?sh1)"
      by (simp_all add: p c ph)
    have inv: "dom (buffer sh') \<inter> set (drop (count sh') (perm sh')) = {}"
    proof -
      have "dom (buffer ?sh1) \<inter> set (drop (Suc ?j) p) = {}"
        using Cons.prems(3) dist by (auto simp: p[symmetric] dr)
      with k(6) show ?thesis by (auto simp: k(1) k(4))
    qed
    have ih: "put_then_end vs sh' s' =
        emit_all c (map (slot_item (buffer sh' ++ map_of (zip (drop (count sh') p) vs)) ph)
                   [cursor sh'..<length p]) s'"
      using Cons.prems(1,2) inv k
      by (intro Cons.IH) (simp_all add: p)
    have same: "map (slot_item (buffer sh' ++ map_of (zip (drop (count sh') p) vs)) ph)
                   [cursor sh'..<length p] =
                map (slot_item ?g ph) [cursor sh'..<length p]"
    proof (rule map_cong[OF refl])
      fix x
      assume "x \<in> set [cursor sh'..<length p]"
      then have "buffer sh' x = buffer ?sh1 x"
        using k(5) by simp
      then have "(buffer sh' ++ ?m) x = ?g x"
        by (simp add: map_add_def split: option.split)
      then show "slot_item (buffer sh' ++ map_of (zip (drop (count sh') p) vs)) ph x =
                 slot_item ?g ph x"
        by (simp add: slot_item_def k(4))
    qed
    show ?thesis
      using fut d None ih by (simp add: put_then_end_Cons put final same)
  qed
qed

lemma perm_ok_distinct: "perm_ok p \<Longrightarrow> distinct p"
  by (simp add: perm_ok_def)

lemma shuffler_run:
  assumes "perm_ok p" and "length vs \<le> length p"
  shows "put_then_end vs (NewStreamShuffler p ph c) s = emit_all c (shuffled p ph vs) s"
  using assms
  by (subst put_then_end_future[where c = c and p = p and ph = ph])
     (simp_all add: NewStreamShuffler_def shuffled_def perm_ok_distinct)

lemma emit_all_record: "emit_all record_emit vs log = (None, log @ vs)"
  by (induction vs arbitrary: log) (simp_all add: record_emit_def)

lemma length_shuffled: "length (shuffled p ph vs) = length p"
  by (simp add: shuffled_def)

lemma shuffled_put:
  assumes "perm_ok p" and "length vs \<le> length p" and "i < length vs"
  shows "shuffled p ph vs ! (p ! i) = vs ! i"
proof -
  have "zip p vs = take (length vs) (zip p vs)"
    by simp
  then have z: "zip p vs = zip (take (length vs) p) vs"
    by (simp add: take_zip)
  have "map_of (zip (take (length vs) p) vs) (take (length vs) p ! i) = Some (vs ! i)"
    using assms by (intro map_of_zip_nth) (simp_all add: perm_ok_def)
  then have m: "map_of (zip p vs) (p ! i) = Some (vs ! i)"
    using assms(3) by (simp add: z)
  have "p ! i < length p"
    using assms by (simp add: perm_ok_def list_all_length)
  then show ?thesis
    by (simp add: shuffled_def slot_item_def m)
qed

lemma shuffled_pad:
  assumes "d < length p" and "d \<notin> set (take (length vs) p)"
  shows "shuffled p ph vs ! d = ph"
proof -
  have "map fst (zip p vs) = take (length vs) p"
    by (simp add: map_fst_zip_take min_def take_all)
  then have "map_of (zip p vs) d = None"
    using assms(2) by (metis map_of_eq_None_iff set_map)
  with assms(1) show ?thesis
    by (simp add: shuffled_def slot_item_def)
qed

text \<open>
  C2. For every permutation over \<open>N\<close> slots and every sequence of \<open>k \<le> N\<close> calls of
  \<^verbatim>\<open>Put\<close> followed by \<^verbatim>\<open>End\<close>, the consumer is called exactly \<open>N\<close> times, the
  \<open>d\<close>-th call carrying slot \<open>d\<close>: the item put for the logical index whose destination
  is \<open>d\<close>, and the placeholder for every slot that is the destination of no item put.
\<close>

theorem stream_shuffler_coverage:
  assumes "perm_ok p" and "length vs \<le> length p"
  shows "put_then_end vs (NewStreamShuffler p ph record_emit) [] = (None, shuffled p ph vs) \<and>
         length (shuffled p ph vs) = length p \<and>
         (\<forall>i<length vs. shuffled p ph vs ! (p ! i) = vs ! i) \<and>
         (\<forall>d<length p. d \<notin> set (take (length vs) p) \<longrightarrow> shuffled p ph vs ! d = ph)"
  using assms
  by (simp add: shuffler_run emit_all_record length_shuffled shuffled_put shuffled_pad)


theorem stream_shuffler_coverage_witness:
  "perm_ok [2, 0, 3, 1] \<and> length [10, 20, 30 :: nat] \<le> length [2, 0, 3, 1 :: nat] \<and>
   put_then_end [10, 20, 30 :: nat] (NewStreamShuffler [2, 0, 3, 1] 0 record_emit) [] =
     (None, [20, 0, 10, 30])"
proof -
  have a: "perm_ok [2, 0, 3, 1]" by (simp add: perm_ok_def)
  have b: "length [10, 20, 30 :: nat] \<le> length [2, 0, 3, 1 :: nat]" by simp
  have c: "shuffled [2, 0, 3, 1] 0 [10, 20, 30 :: nat] = [20, 0, 10, 30]"
    by (simp add: shuffled_def slot_item_def upt_rec)
  show ?thesis
    using stream_shuffler_coverage[OF a b, of 0] a b c by simp
qed

section \<open>What WriteChunkHashes writes\<close>

lemma Write_unbounded:
  "room w = None \<Longrightarrow> Write w bs = (length bs, None, w\<lparr>written := written w @ bs\<rparr>)"
  by (simp add: Write_def)

lemma Write_success:
  "Write w bs = (n, None, w') \<Longrightarrow> written w' = written w @ bs \<and> n = length bs"
  by (auto simp: Write_def split: option.splits if_splits)

lemma Write_room_None:
  "Write w bs = (n, err, w') \<Longrightarrow> room w = None \<Longrightarrow> room w' = None"
  by (auto simp: Write_def)

lemma writeVarint_unbounded:
  "room w = None \<Longrightarrow> writeVarint w v = (None, w\<lparr>written := written w @ varint (nat v)\<rparr>)"
  by (simp add: writeVarint_def Write_unbounded)

lemma writeVarint_success:
  "writeVarint w v = (None, w') \<Longrightarrow> written w' = written w @ varint (nat v)"
  by (auto simp: writeVarint_def dest: Write_success split: prod.splits)

lemma writeEntry_unbounded:
  "room w = None \<Longrightarrow> writeEntry c w = (None, w\<lparr>written := written w @ entry_bytes c\<rparr>)"
  by (simp add: writeEntry_def Write_unbounded writeVarint_unbounded entry_bytes_def)

lemma writeEntry_success:
  "writeEntry c w = (None, w') \<Longrightarrow> written w' = written w @ entry_bytes c"
  by (auto simp: writeEntry_def entry_bytes_def dest!: Write_success writeVarint_success
           split: prod.splits option.splits)

lemma emit_all_writeEntry_unbounded:
  "room w = None \<Longrightarrow>
   emit_all writeEntry cs w = (None, w\<lparr>written := written w @ concat (map entry_bytes cs)\<rparr>)"
  by (induction cs arbitrary: w) (simp_all add: writeEntry_unbounded)

lemma emit_all_writeEntry_success:
  "emit_all writeEntry cs w = (None, w') \<Longrightarrow>
   written w' = written w @ concat (map entry_bytes cs)"
proof (induction cs arbitrary: w)
  case Nil
  then show ?case by simp
next
  case (Cons c cs)
  obtain r t where ct: "writeEntry c w = (r, t)" by (cases "writeEntry c w")
  with Cons.prems have r: "r = None" and rest: "emit_all writeEntry cs t = (None, w')"
    by (auto split: option.splits)
  from ct r have "written t = written w @ entry_bytes c"
    by (simp add: writeEntry_success)
  with Cons.IH[OF rest] show ?case by simp
qed

lemma length_keyBytes: "length (keyBytes k) = KeySize"
  by (simp add: keyBytes_def)

lemma keyBytes_emptyKey: "keyBytes emptyKey = replicate KeySize 0"
  by (simp add: keyBytes_def emptyKey_def map_replicate_const)

lemma varint_0: "varint 0 = [0]"
  by (simp add: varint.simps)

lemma entry_bytes_emptyChunk: "entry_bytes emptyChunk = replicate KeySize 0 @ [0]"
  by (simp add: entry_bytes_def emptyChunk_def keyBytes_emptyKey varint_0)

text \<open>
  C3. For a file of at most \<open>N\<close> chunks and a permutation over \<open>N\<close> slots,
  \<^verbatim>\<open>WriteChunkHashes\<close> writes exactly the \<open>N\<close> entries of the slot sequence, in slot
  order, each the key bytes of fixed width followed by the varint of the size; a slot
  that is the destination of no chunk carries the all-zero key and size 0. On a writer
  that never fails the call succeeds, and whenever it succeeds this is what was written.
\<close>

theorem WriteChunkHashes_output:
  assumes "perm_ok p" and "length (chunks file) \<le> length p"
  shows "(room w = None \<longrightarrow>
            WriteChunkHashes file p w =
              (None, w\<lparr>written := written w @
                 concat (map entry_bytes (shuffled p emptyChunk (chunk_infos file)))\<rparr>)) \<and>
         (\<forall>w'. WriteChunkHashes file p w = (None, w') \<longrightarrow>
            written w' = written w @
              concat (map entry_bytes (shuffled p emptyChunk (chunk_infos file)))) \<and>
         length (shuffled p emptyChunk (chunk_infos file)) = length p \<and>
         (\<forall>i<length (chunks file).
            shuffled p emptyChunk (chunk_infos file) ! (p ! i) = chunk_infos file ! i) \<and>
         (\<forall>d<length p. d \<notin> set (take (length (chunks file)) p) \<longrightarrow>
            shuffled p emptyChunk (chunk_infos file) ! d = emptyChunk) \<and>
         (\<forall>c. entry_bytes c = keyBytes (fst c) @ varint (nat (snd c)) \<and>
              length (keyBytes (fst c)) = KeySize) \<and>
         entry_bytes emptyChunk = replicate KeySize 0 @ [0]"
proof -
  have len: "length (chunk_infos file) \<le> length p"
    using assms(2) by (simp add: chunk_infos_def)
  have run: "WriteChunkHashes file p w =
      emit_all writeEntry (shuffled p emptyChunk (chunk_infos file)) w"
    by (simp add: WriteChunkHashes_def shuffler_run[OF assms(1) len])
  have a: "room w = None \<longrightarrow>
            WriteChunkHashes file p w =
              (None, w\<lparr>written := written w @
                 concat (map entry_bytes (shuffled p emptyChunk (chunk_infos file)))\<rparr>)"
    by (simp add: run emit_all_writeEntry_unbounded)
  have b: "\<forall>w'. WriteChunkHashes file p w = (None, w') \<longrightarrow>
            written w' = written w @
              concat (map entry_bytes (shuffled p emptyChunk (chunk_infos file)))"
    by (simp add: run emit_all_writeEntry_success)
  have c: "\<forall>i<length (chunks file).
            shuffled p emptyChunk (chunk_infos file) ! (p ! i) = chunk_infos file ! i"
    using shuffled_put[OF assms(1) len] by (simp add: chunk_infos_def)
  have d: "\<forall>d<length p. d \<notin> set (take (length (chunks file)) p) \<longrightarrow>
            shuffled p emptyChunk (chunk_infos file) ! d = emptyChunk"
    using shuffled_pad[of _ p "chunk_infos file" emptyChunk] by (simp add: chunk_infos_def)
  have l: "length (shuffled p emptyChunk (chunk_infos file)) = length p"
    by (rule length_shuffled)
  have e: "\<forall>c. entry_bytes c = keyBytes (fst c) @ varint (nat (snd c)) \<and>
              length (keyBytes (fst c)) = KeySize"
    by (simp add: entry_bytes_def length_keyBytes)
  show ?thesis
    by (rule conjI[OF a conjI[OF b conjI[OF l conjI[OF c conjI[OF d conjI[OF e entry_bytes_emptyChunk]]]]]])
qed


theorem WriteChunkHashes_output_witness:
  "perm_ok [2, 0, 1] \<and>
   length (chunks \<lparr>handle = 0, chunks = [(7, [1, 2, 3]), (9, [4])]\<rparr>) \<le> length [2, 0, 1 :: nat] \<and>
   WriteChunkHashes \<lparr>handle = 0, chunks = [(7, [1, 2, 3]), (9, [4])]\<rparr> [2, 0, 1]
       \<lparr>written = [], room = None\<rparr> =
     (None, \<lparr>written = entry_bytes (9, 1) @ entry_bytes emptyChunk @ entry_bytes (7, 3),
             room = None\<rparr>)"
proof -
  let ?f = "\<lparr>handle = 0, chunks = [(7, [1, 2, 3]), (9, [4])]\<rparr>"
  have a: "perm_ok [2, 0, 1]" by (simp add: perm_ok_def)
  have b: "length (chunks ?f) \<le> length [2, 0, 1 :: nat]" by simp
  have c: "shuffled [2, 0, 1] emptyChunk (chunk_infos ?f) = [(9, 1), emptyChunk, (7, 3)]"
    by (simp add: shuffled_def slot_item_def chunk_infos_def upt_rec)
  show ?thesis
    using WriteChunkHashes_output[OF a b, of "\<lparr>written = [], room = None\<rparr>"] a b c by simp
qed

section \<open>forEachChunk: placeholder slots\<close>

lemma forEachChunk_run:
  assumes "perm_ok p" and "length (chunks file) \<le> length p"
  shows "forEachChunk st file r p f u =
     (case emit_all (onSlot f) (shuffled p emptyKey (chunk_keys file))
             \<lparr>bits = newBitReader r, storage = st, user = u\<rparr> of
        (Some e, wd) \<Rightarrow> (Some e, wd)
      | (None, wd) \<Rightarrow>
          (case ReadByte (src (bits wd)) of
             Inl e \<Rightarrow> if e = EOF then (None, wd) else (Some WishlistTooLong, wd)
           | Inr (b, r') \<Rightarrow> (Some WishlistTooLong, wd\<lparr>bits := (bits wd)\<lparr>src := r'\<rparr>\<rparr>)))"
proof -
  have "length (chunk_keys file) \<le> length p"
    using assms(2) by (simp add: chunk_keys_def)
  show ?thesis
    unfolding forEachChunk_def shuffler_run[OF assms(1) \<open>length (chunk_keys file) \<le> length p\<close>]
    by (rule refl)
qed

lemma emit_all_stops:
  "emit_all c xs s = (Some e, s') \<Longrightarrow> emit_all c (xs @ ys) s = (Some e, s')"
  by (simp add: emit_all_append)

lemma emit_all_at:
  assumes "j < length xs" and "emit_all c (take j xs) s = (None, s1)"
  shows "emit_all c (take (Suc j) xs) s = c (xs ! j) s1"
    and "c (xs ! j) s1 = (Some e, s2) \<Longrightarrow> emit_all c xs s = (Some e, s2)"
proof -
  have t: "take (Suc j) xs = take j xs @ [xs ! j]"
    using assms(1) by (simp add: take_Suc_conv_app_nth)
  show a: "emit_all c (take (Suc j) xs) s = c (xs ! j) s1"
    using assms(2) by (simp add: t emit_all_append split: prod.splits option.splits)
  assume "c (xs ! j) s1 = (Some e, s2)"
  with a have "emit_all c (take (Suc j) xs) s = (Some e, s2)" by simp
  from emit_all_stops[OF this, of "drop (Suc j) xs"] show "emit_all c xs s = (Some e, s2)"
    by simp
qed

text \<open>
  C4. In a run of \<^verbatim>\<open>forEachChunk\<close> that has processed the slots before slot \<open>j\<close>
  without error, when slot \<open>j\<close> is a placeholder (the empty key) and the wishlist bit
  read for it is true, the run aborts with \<open>SpuriousRequest\<close>; when the bit is false the
  slot is skipped: only the bit reader advances, the storage is not consulted and the
  delegate is not called.
\<close>

theorem forEachChunk_placeholder_slot:
  assumes "perm_ok p" and "length (chunks file) \<le> length p"
    and "j < length p"
    and "shuffled p emptyKey (chunk_keys file) ! j = emptyKey"
    and "emit_all (onSlot f) (take j (shuffled p emptyKey (chunk_keys file)))
           \<lparr>bits = newBitReader r, storage = st, user = u\<rparr> = (None, wd)"
    and "ReadBit (bits wd) = Inr (b, br)"
  shows "(b \<longrightarrow> forEachChunk st file r p f u = (Some SpuriousRequest, wd\<lparr>bits := br\<rparr>)) \<and>
         (\<not> b \<longrightarrow>
            emit_all (onSlot f) (take (Suc j) (shuffled p emptyKey (chunk_keys file)))
              \<lparr>bits = newBitReader r, storage = st, user = u\<rparr> = (None, wd\<lparr>bits := br\<rparr>) \<and>
            storage (wd\<lparr>bits := br\<rparr>) = storage wd \<and> user (wd\<lparr>bits := br\<rparr>) = user wd)"
proof -
  let ?slots = "shuffled p emptyKey (chunk_keys file)"
  let ?wd0 = "\<lparr>bits = newBitReader r, storage = st, user = u\<rparr>"
  have j: "j < length ?slots"
    using assms(3) by (simp add: length_shuffled)
  have slot: "onSlot f (?slots ! j) wd =
      (if b then (Some SpuriousRequest, wd\<lparr>bits := br\<rparr>) else (None, wd\<lparr>bits := br\<rparr>))"
    using assms(4,6) by (simp add: onSlot_def)
  show ?thesis
  proof (cases b)
    case True
    with slot have "onSlot f (?slots ! j) wd = (Some SpuriousRequest, wd\<lparr>bits := br\<rparr>)"
      by simp
    from emit_all_at(2)[OF j assms(5) this]
    have "emit_all (onSlot f) ?slots ?wd0 = (Some SpuriousRequest, wd\<lparr>bits := br\<rparr>)" .
    with True show ?thesis
      by (simp add: forEachChunk_run[OF assms(1,2)])
  next
    case False
    with slot emit_all_at(1)[OF j assms(5)] show ?thesis by simp
  qed
qed



lemma shuffled_example:
  "shuffled [2, 0, 1] emptyKey (chunk_keys \<lparr>handle = 0, chunks = [(7, [1, 2, 3]), (9, [4])]\<rparr>) =
     [9, emptyKey, 7]"
  by (simp add: shuffled_def slot_item_def chunk_keys_def upt_rec)

theorem forEachChunk_placeholder_slot_witness:
  "perm_ok [2, 0, 1] \<and>
   length (chunks \<lparr>handle = 0, chunks = [(7, [1, 2, 3]), (9, [4])]\<rparr>) \<le> length [2, 0, 1 :: nat] \<and>
   shuffled [2, 0, 1] emptyKey (chunk_keys \<lparr>handle = 0, chunks = [(7, [1, 2, 3]), (9, [4])]\<rparr>) ! 1
     = emptyKey \<and>
   forEachChunk \<lparr>blobs = [7 \<mapsto> [1, 2, 3], 9 \<mapsto> [4]], issued = 0, events = []\<rparr>
       \<lparr>handle = 0, chunks = [(7, [1, 2, 3]), (9, [4])]\<rparr>
       \<lparr>pending = [0xE0], ending = EOF\<rparr> [2, 0, 1] (\<lambda>c b u. (None, u)) () =
     (Some SpuriousRequest,
      \<lparr>bits = \<lparr>src = \<lparr>pending = [], ending = EOF\<rparr>, cur = 0x80, nbits = 6\<rparr>,
       storage = \<lparr>blobs = [7 \<mapsto> [1, 2, 3], 9 \<mapsto> [4]], issued = 1,
                  events = [Acquired 0, Disposed 0]\<rparr>,
       user = ()\<rparr>)"
proof -
  let ?file = "\<lparr>handle = 0, chunks = [(7, [1, 2, 3]), (9, [4])]\<rparr>"
  let ?st = "\<lparr>blobs = [7 \<mapsto> [1, 2, 3], 9 \<mapsto> [4]], issued = 0, events = []\<rparr>"
  let ?r = "\<lparr>pending = [0xE0], ending = EOF\<rparr>"
  let ?f = "\<lambda>(c::File) (b::bool) (u::unit). (None :: error option, u)"
  let ?wd = "\<lparr>bits = \<lparr>src = \<lparr>pending = [], ending = EOF\<rparr>, cur = 0xC0, nbits = 7\<rparr>,
       storage = \<lparr>blobs = [7 \<mapsto> [1, 2, 3], 9 \<mapsto> [4]], issued = 1,
                  events = [Acquired 0, Disposed 0]\<rparr>,
       user = ()\<rparr>"
  let ?br = "\<lparr>src = \<lparr>pending = [], ending = EOF\<rparr>, cur = 0x80, nbits = 6\<rparr>"
  have a: "perm_ok [2, 0, 1]" by (simp add: perm_ok_def)
  have b: "length (chunks ?file) \<le> length [2, 0, 1 :: nat]" by simp
  have c: "(1::nat) < length [2, 0, 1 :: nat]" by simp
  have d: "shuffled [2, 0, 1] emptyKey (chunk_keys ?file) ! 1 = emptyKey"
    unfolding shuffled_example by simp
  have e: "emit_all (onSlot ?f) (take 1 (shuffled [2, 0, 1] emptyKey (chunk_keys ?file)))
           \<lparr>bits = newBitReader ?r, storage = ?st, user = ()\<rparr> = (None, ?wd)"
    unfolding shuffled_example
    by (simp add: onSlot_def ReadBit_def ReadByte_def newBitReader_def
        Get_def Dispose_def emptyKey_def)
  have f: "ReadBit (bits ?wd) = Inr (True, ?br)"
    by (simp add: ReadBit_def)
  show ?thesis
    using forEachChunk_placeholder_slot[OF a b c d e f] a b d by simp
qed

section \<open>forEachChunk: the length of the wishlist\<close>

lemma ReadBit_success:
  assumes "ReadBit br = Inr (b, br')" and "nbits br \<le> 7"
  shows "nbits br' \<le> 7 \<and>
         Suc (nbits br' + 8 * length (pending (src br'))) = nbits br + 8 * length (pending (src br)) \<and>
         ending (src br') = ending (src br)"
  using assms
  by (auto simp: ReadBit_def ReadByte_def split: if_splits list.splits)

lemma ReadBit_failure:
  "ReadBit br = Inl e \<Longrightarrow> nbits br = 0 \<and> pending (src br) = [] \<and> e = ending (src br)"
  by (auto simp: ReadBit_def ReadByte_def split: if_splits list.splits)

lemma read_bits_success:
  "read_bits n br = Inr (bs, br') \<Longrightarrow> nbits br \<le> 7 \<Longrightarrow>
     length bs = n \<and> nbits br' \<le> 7 \<and>
     n + nbits br' + 8 * length (pending (src br')) = nbits br + 8 * length (pending (src br)) \<and>
     ending (src br') = ending (src br)"
proof (induction n arbitrary: br bs)
  case 0
  then show ?case by simp
next
  case (Suc n)
  from Suc.prems(1) obtain b br1 bs1 where
    rb: "ReadBit br = Inr (b, br1)" and rest: "read_bits n br1 = Inr (bs1, br')" and bs: "bs = b # bs1"
    by (auto split: sum.splits prod.splits)
  from ReadBit_success[OF rb Suc.prems(2)] have
    s: "nbits br1 \<le> 7"
       "Suc (nbits br1 + 8 * length (pending (src br1))) = nbits br + 8 * length (pending (src br))"
       "ending (src br1) = ending (src br)"
    by simp_all
  from Suc.IH[OF rest s(1)] s bs show ?case by simp
qed

lemma onSlot_reads_one_bit:
  "onSlot f k wd = (None, wd') \<Longrightarrow> \<exists>b. ReadBit (bits wd) = Inr (b, bits wd')"
  by (auto simp: onSlot_def split: sum.splits prod.splits if_splits)

lemma emit_all_onSlot_bits:
  "emit_all (onSlot f) ks wd = (None, wd') \<Longrightarrow>
     \<exists>bs. read_bits (length ks) (bits wd) = Inr (bs, bits wd')"
proof (induction ks arbitrary: wd)
  case Nil
  then show ?case by simp
next
  case (Cons k ks)
  obtain e wd1 where s: "onSlot f k wd = (e, wd1)" by (cases "onSlot f k wd")
  with Cons.prems have e: "e = None" and rest: "emit_all (onSlot f) ks wd1 = (None, wd')"
    by (auto split: option.splits)
  from onSlot_reads_one_bit s e obtain b where rb: "ReadBit (bits wd) = Inr (b, bits wd1)"
    by blast
  from Cons.IH[OF rest] obtain bs where "read_bits (length ks) (bits wd1) = Inr (bs, bits wd')"
    by blast
  with rb show ?case by simp
qed

lemma forEachChunk_success:
  assumes "perm_ok p" and "length (chunks file) \<le> length p"
    and "forEachChunk st file r p f u = (None, wd)"
  shows "emit_all (onSlot f) (shuffled p emptyKey (chunk_keys file))
           \<lparr>bits = newBitReader r, storage = st, user = u\<rparr> = (None, wd) \<and>
         ReadByte (src (bits wd)) = Inl EOF"
  using assms(3) unfolding forEachChunk_run[OF assms(1,2)]
  by (auto split: prod.splits option.splits sum.splits if_splits)

lemma forEachChunk_success_bits:
  assumes "perm_ok p" and "length (chunks file) \<le> length p"
    and "forEachChunk st file r p f u = (None, wd)"
  shows "(\<exists>bs. length bs = length p \<and> read_bits (length p) (newBitReader r) = Inr (bs, bits wd)) \<and>
         pending (src (bits wd)) = [] \<and>
         length (pending r) = (length p + 7) div 8 \<and> ending r = EOF"
proof -
  from forEachChunk_success[OF assms] have
    run: "emit_all (onSlot f) (shuffled p emptyKey (chunk_keys file))
           \<lparr>bits = newBitReader r, storage = st, user = u\<rparr> = (None, wd)"
    and fin: "ReadByte (src (bits wd)) = Inl EOF"
    by simp_all
  from emit_all_onSlot_bits[OF run] obtain bs where
    rb: "read_bits (length p) (newBitReader r) = Inr (bs, bits wd)"
    by (auto simp: length_shuffled)
  have "nbits (newBitReader r) \<le> 7" by (simp add: newBitReader_def)
  from read_bits_success[OF rb this] have
    c: "length bs = length p" "nbits (bits wd) \<le> 7"
       "length p + nbits (bits wd) + 8 * length (pending (src (bits wd))) = 8 * length (pending r)"
       "ending (src (bits wd)) = ending r"
    by (simp_all add: newBitReader_def)
  from fin have e: "pending (src (bits wd)) = []" "ending (src (bits wd)) = EOF"
    by (auto simp: ReadByte_def split: list.splits)
  from c e have "length (pending r) = (length p + 7) div 8" by simp
  with rb c e show ?thesis by auto
qed

text \<open>
  C5. For a permutation over \<open>N\<close> slots, \<^verbatim>\<open>forEachChunk\<close> consumes exactly one wishlist
  bit per emitted slot: after \<open>j\<close> slots the bit reader is where \<open>j\<close> single-bit reads
  leave it, and a successful call has read exactly \<open>N\<close> bits from a byte source of
  exactly \<open>(N + 7) div 8\<close> bytes that then ends cleanly. A byte source holding fewer than
  \<open>N\<close> bits never lets the call succeed, and the call fails with \<open>WishlistTooShort\<close>
  at the slot whose bit cannot be read. When all slots were processed and the byte
  source yields a further byte, the call fails with \<open>WishlistTooLong\<close>.
\<close>

theorem forEachChunk_wishlist_length:
  assumes "perm_ok p" and "length (chunks file) \<le> length p"
  shows "(\<forall>wd. forEachChunk st file r p f u = (None, wd) \<longrightarrow>
            (\<exists>bs. length bs = length p \<and>
                  read_bits (length p) (newBitReader r) = Inr (bs, bits wd)) \<and>
            length (pending r) = (length p + 7) div 8 \<and> ending r = EOF) \<and>
         (\<forall>j wd. j \<le> length p \<and>
            emit_all (onSlot f) (take j (shuffled p emptyKey (chunk_keys file)))
              \<lparr>bits = newBitReader r, storage = st, user = u\<rparr> = (None, wd) \<longrightarrow>
            (\<exists>bs. length bs = j \<and> read_bits j (newBitReader r) = Inr (bs, bits wd))) \<and>
         (8 * length (pending r) < length p \<longrightarrow> fst (forEachChunk st file r p f u) \<noteq> None) \<and>
         (\<forall>j wd e. j < length p \<and>
            emit_all (onSlot f) (take j (shuffled p emptyKey (chunk_keys file)))
              \<lparr>bits = newBitReader r, storage = st, user = u\<rparr> = (None, wd) \<and>
            ReadBit (bits wd) = Inl e \<longrightarrow>
            forEachChunk st file r p f u = (Some (WishlistTooShort e), wd)) \<and>
         (\<forall>wd b r'.
            emit_all (onSlot f) (shuffled p emptyKey (chunk_keys file))
              \<lparr>bits = newBitReader r, storage = st, user = u\<rparr> = (None, wd) \<and>
            ReadByte (src (bits wd)) = Inr (b, r') \<longrightarrow>
            fst (forEachChunk st file r p f u) = Some WishlistTooLong)"
proof -
  let ?slots = "shuffled p emptyKey (chunk_keys file)"
  let ?wd0 = "\<lparr>bits = newBitReader r, storage = st, user = u\<rparr>"
  have a: "\<forall>wd. forEachChunk st file r p f u = (None, wd) \<longrightarrow>
            (\<exists>bs. length bs = length p \<and>
                  read_bits (length p) (newBitReader r) = Inr (bs, bits wd)) \<and>
            length (pending r) = (length p + 7) div 8 \<and> ending r = EOF"
  proof (intro allI impI)
    fix wd
    assume "forEachChunk st file r p f u = (None, wd)"
    from forEachChunk_success_bits[OF assms this]
    show "(\<exists>bs. length bs = length p \<and>
                  read_bits (length p) (newBitReader r) = Inr (bs, bits wd)) \<and>
            length (pending r) = (length p + 7) div 8 \<and> ending r = EOF"
      by simp
  qed
  have a': "\<forall>j wd. j \<le> length p \<and>
            emit_all (onSlot f) (take j ?slots) ?wd0 = (None, wd) \<longrightarrow>
            (\<exists>bs. length bs = j \<and> read_bits j (newBitReader r) = Inr (bs, bits wd))"
  proof (intro allI impI, elim conjE)
    fix j wd
    assume j: "j \<le> length p"
      and pre: "emit_all (onSlot f) (take j ?slots) ?wd0 = (None, wd)"
    have lj: "length (take j ?slots) = j"
      using j by (simp add: length_shuffled)
    from emit_all_onSlot_bits[OF pre] obtain bs where
      rb: "read_bits j (newBitReader r) = Inr (bs, bits wd)"
      unfolding lj by auto
    have "nbits (newBitReader r) \<le> 7" by (simp add: newBitReader_def)
    from read_bits_success[OF rb this] rb
    show "\<exists>bs. length bs = j \<and> read_bits j (newBitReader r) = Inr (bs, bits wd)"
      by auto
  qed
  have b: "8 * length (pending r) < length p \<longrightarrow> fst (forEachChunk st file r p f u) \<noteq> None"
  proof
    assume short: "8 * length (pending r) < length p"
    show "fst (forEachChunk st file r p f u) \<noteq> None"
    proof
      assume "fst (forEachChunk st file r p f u) = None"
      then obtain wd where "forEachChunk st file r p f u = (None, wd)"
        by (cases "forEachChunk st file r p f u") simp
      from forEachChunk_success_bits[OF assms this]
      have "length (pending r) = (length p + 7) div 8" by simp
      with short show False by simp
    qed
  qed
  have c: "\<forall>j wd e. j < length p \<and>
            emit_all (onSlot f) (take j ?slots) ?wd0 = (None, wd) \<and>
            ReadBit (bits wd) = Inl e \<longrightarrow>
            forEachChunk st file r p f u = (Some (WishlistTooShort e), wd)"
  proof (intro allI impI, elim conjE)
    fix j wd e
    assume j: "j < length p"
      and pre: "emit_all (onSlot f) (take j ?slots) ?wd0 = (None, wd)"
      and rb: "ReadBit (bits wd) = Inl e"
    have j': "j < length ?slots" using j by (simp add: length_shuffled)
    have "onSlot f (?slots ! j) wd = (Some (WishlistTooShort e), wd)"
      using rb by (simp add: onSlot_def)
    from emit_all_at(2)[OF j' pre this]
    show "forEachChunk st file r p f u = (Some (WishlistTooShort e), wd)"
      by (simp add: forEachChunk_run[OF assms])
  qed
  have d: "\<forall>wd b r'.
            emit_all (onSlot f) ?slots ?wd0 = (None, wd) \<and>
            ReadByte (src (bits wd)) = Inr (b, r') \<longrightarrow>
            fst (forEachChunk st file r p f u) = Some WishlistTooLong"
    by (simp add: forEachChunk_run[OF assms])
  show ?thesis
    by (rule conjI[OF a conjI[OF a' conjI[OF b conjI[OF c d]]]])
qed

text \<open>
  C10. Once the shuffler has ended without error, every outcome of the final
  \<^verbatim>\<open>r.ReadByte()\<close> other than \<open>EOF\<close> makes \<^verbatim>\<open>forEachChunk\<close> return \<open>WishlistTooLong\<close>;
  this includes a read error of the byte source, which is not told apart from a
  trailing byte.
\<close>

theorem forEachChunk_final_read:
  assumes "perm_ok p" and "length (chunks file) \<le> length p"
    and "emit_all (onSlot f) (shuffled p emptyKey (chunk_keys file))
           \<lparr>bits = newBitReader r, storage = st, user = u\<rparr> = (None, wd)"
    and "ReadByte (src (bits wd)) \<noteq> Inl EOF"
  shows "fst (forEachChunk st file r p f u) = Some WishlistTooLong \<and>
         (\<forall>e. ReadByte (src (bits wd)) = Inl e \<longrightarrow>
            forEachChunk st file r p f u = (Some WishlistTooLong, wd))"
  using assms(3,4) unfolding forEachChunk_run[OF assms(1,2)]
  by (auto split: sum.splits)


theorem forEachChunk_wishlist_length_witness:
  "perm_ok [2, 0, 1] \<and>
   length (chunks \<lparr>handle = 0, chunks = [(7, [1, 2, 3]), (9, [4])]\<rparr>) \<le> length [2, 0, 1 :: nat] \<and>
   forEachChunk \<lparr>blobs = [7 \<mapsto> [1, 2, 3], 9 \<mapsto> [4]], issued = 0, events = []\<rparr>
       \<lparr>handle = 0, chunks = [(7, [1, 2, 3]), (9, [4])]\<rparr>
       \<lparr>pending = [], ending = EOF\<rparr> [2, 0, 1] (\<lambda>c b u. (None, u)) () =
     (Some (WishlistTooShort EOF),
      \<lparr>bits = newBitReader \<lparr>pending = [], ending = EOF\<rparr>,
       storage = \<lparr>blobs = [7 \<mapsto> [1, 2, 3], 9 \<mapsto> [4]], issued = 0, events = []\<rparr>,
       user = ()\<rparr>) \<and>
   fst (forEachChunk \<lparr>blobs = [7 \<mapsto> [1, 2, 3], 9 \<mapsto> [4]], issued = 0, events = []\<rparr>
       \<lparr>handle = 0, chunks = [(7, [1, 2, 3]), (9, [4])]\<rparr>
       \<lparr>pending = [0xA0, 0], ending = EOF\<rparr> [2, 0, 1] (\<lambda>c b u. (None, u)) ()) =
     Some WishlistTooLong"
proof -
  let ?file = "\<lparr>handle = 0, chunks = [(7, [1, 2, 3]), (9, [4])]\<rparr>"
  let ?st = "\<lparr>blobs = [7 \<mapsto> [1, 2, 3], 9 \<mapsto> [4]], issued = 0, events = []\<rparr>"
  let ?f = "\<lambda>(c::File) (b::bool) (u::unit). (None :: error option, u)"
  let ?r0 = "\<lparr>pending = [], ending = EOF\<rparr>"
  let ?r2 = "\<lparr>pending = [0xA0, 0], ending = EOF\<rparr>"
  let ?wd2 = "\<lparr>bits = \<lparr>src = \<lparr>pending = [0], ending = EOF\<rparr>, cur = 0, nbits = 5\<rparr>,
       storage = \<lparr>blobs = [7 \<mapsto> [1, 2, 3], 9 \<mapsto> [4]], issued = 2,
                  events = [Acquired 0, Disposed 0, Acquired 1, Disposed 1]\<rparr>,
       user = ()\<rparr>"
  have a: "perm_ok [2, 0, 1]" by (simp add: perm_ok_def)
  have b: "length (chunks ?file) \<le> length [2, 0, 1 :: nat]" by simp
  have short: "(0::nat) < length [2, 0, 1 :: nat] \<and>
      emit_all (onSlot ?f) (take 0 (shuffled [2, 0, 1] emptyKey (chunk_keys ?file)))
        \<lparr>bits = newBitReader ?r0, storage = ?st, user = ()\<rparr> =
        (None, \<lparr>bits = newBitReader ?r0, storage = ?st, user = ()\<rparr>) \<and>
      ReadBit (bits \<lparr>bits = newBitReader ?r0, storage = ?st, user = ()\<rparr>) = Inl EOF"
    by (simp add: ReadBit_def ReadByte_def newBitReader_def)
  have long: "emit_all (onSlot ?f) (shuffled [2, 0, 1] emptyKey (chunk_keys ?file))
        \<lparr>bits = newBitReader ?r2, storage = ?st, user = ()\<rparr> = (None, ?wd2) \<and>
      ReadByte (src (bits ?wd2)) = Inr (0, \<lparr>pending = [], ending = EOF\<rparr>)"
    unfolding shuffled_example
    by (simp add: onSlot_def ReadBit_def ReadByte_def newBitReader_def Get_def Dispose_def
        emptyKey_def)
  note inst = forEachChunk_wishlist_length[OF a b, of ?st _ ?f "()"]
  from inst[of ?r0] short
  have 1: "forEachChunk ?st ?file ?r0 [2, 0, 1] ?f () =
      (Some (WishlistTooShort EOF), \<lparr>bits = newBitReader ?r0, storage = ?st, user = ()\<rparr>)"
    by blast
  from inst[of ?r2] long
  have 2: "fst (forEachChunk ?st ?file ?r2 [2, 0, 1] ?f ()) = Some WishlistTooLong"
    by blast
  from a b 1 2 show ?thesis by blast
qed

theorem forEachChunk_final_read_witness:
  "perm_ok [2, 0, 1] \<and>
   length (chunks \<lparr>handle = 0, chunks = [(7, [1, 2, 3]), (9, [4])]\<rparr>) \<le> length [2, 0, 1 :: nat] \<and>
   ReadByte \<lparr>pending = [], ending = IOError\<rparr> \<noteq> Inl EOF \<and>
   forEachChunk \<lparr>blobs = [7 \<mapsto> [1, 2, 3], 9 \<mapsto> [4]], issued = 0, events = []\<rparr>
       \<lparr>handle = 0, chunks = [(7, [1, 2, 3]), (9, [4])]\<rparr>
       \<lparr>pending = [0xA0], ending = IOError\<rparr> [2, 0, 1] (\<lambda>c b u. (None, u)) () =
     (Some WishlistTooLong,
      \<lparr>bits = \<lparr>src = \<lparr>pending = [], ending = IOError\<rparr>, cur = 0, nbits = 5\<rparr>,
       storage = \<lparr>blobs = [7 \<mapsto> [1, 2, 3], 9 \<mapsto> [4]], issued = 2,
                  events = [Acquired 0, Disposed 0, Acquired 1, Disposed 1]\<rparr>,
       user = ()\<rparr>)"
proof -
  let ?file = "\<lparr>handle = 0, chunks = [(7, [1, 2, 3]), (9, [4])]\<rparr>"
  let ?st = "\<lparr>blobs = [7 \<mapsto> [1, 2, 3], 9 \<mapsto> [4]], issued = 0, events = []\<rparr>"
  let ?f = "\<lambda>(c::File) (b::bool) (u::unit). (None :: error option, u)"
  let ?r = "\<lparr>pending = [0xA0], ending = IOError\<rparr>"
  let ?wd = "\<lparr>bits = \<lparr>src = \<lparr>pending = [], ending = IOError\<rparr>, cur = 0, nbits = 5\<rparr>,
       storage = \<lparr>blobs = [7 \<mapsto> [1, 2, 3], 9 \<mapsto> [4]], issued = 2,
                  events = [Acquired 0, Disposed 0, Acquired 1, Disposed 1]\<rparr>,
       user = ()\<rparr>"
  have a: "perm_ok [2, 0, 1]" by (simp add: perm_ok_def)
  have b: "length (chunks ?file) \<le> length [2, 0, 1 :: nat]" by simp
  have c: "emit_all (onSlot ?f) (shuffled [2, 0, 1] emptyKey (chunk_keys ?file))
        \<lparr>bits = newBitReader ?r, storage = ?st, user = ()\<rparr> = (None, ?wd)"
    unfolding shuffled_example
    by (simp add: onSlot_def ReadBit_def ReadByte_def newBitReader_def Get_def Dispose_def
        emptyKey_def)
  have d: "ReadByte (src (bits ?wd)) = Inl IOError"
    by (simp add: ReadByte_def)
  have d': "ReadByte (src (bits ?wd)) \<noteq> Inl EOF"
    unfolding d by simp
  have e: "ReadByte \<lparr>pending = [], ending = IOError\<rparr> \<noteq> Inl EOF"
    by (simp add: ReadByte_def)
  from forEachChunk_final_read[OF a b c d'] d
  have "forEachChunk ?st ?file ?r [2, 0, 1] ?f () = (Some WishlistTooLong, ?wd)"
    by blast
  with a b e show ?thesis by blast
qed

section \<open>forEachChunk: chunk handles are disposed\<close>

lemma drain_invariant:
  assumes step: "\<And>v s e s'. I s \<Longrightarrow> c v s = (e, s') \<Longrightarrow> I s'"
  shows "consume sh = c \<Longrightarrow> I s \<Longrightarrow> drain sh s = (err, sh', s') \<Longrightarrow> I s'"
proof (induction sh s rule: drain.induct)
  case (1 sh s)
  show ?case
  proof (cases "cursor sh < length (perm sh)")
    case False
    with "1.prems" show ?thesis by (simp add: drain.simps)
  next
    case True
    show ?thesis
    proof (cases "buffer sh (cursor sh)")
      case None
      with True "1.prems" show ?thesis by (simp add: drain.simps)
    next
      case (Some v)
      obtain e t where ct: "consume sh v s = (e, t)" by (cases "consume sh v s")
      have It: "I t" using step[OF "1.prems"(2)] ct "1.prems"(1) by simp
      show ?thesis
      proof (cases e)
        case (Some x)
        with True \<open>buffer sh (cursor sh) = Some v\<close> ct "1.prems"(3) It show ?thesis
          by (simp add: drain.simps)
      next
        case None
        let ?sh1 = "sh\<lparr>buffer := (buffer sh)(cursor sh := None), cursor := Suc (cursor sh)\<rparr>"
        from True \<open>buffer sh (cursor sh) = Some v\<close> ct None "1.prems"(3)
        have d: "drain ?sh1 t = (err, sh', s')"
          by (subst (asm) drain.simps) simp
        have c1: "consume ?sh1 = c" using "1.prems"(1) by simp
        from "1.IH"[OF True \<open>buffer sh (cursor sh) = Some v\<close> ct[symmetric] _ c1 It d] None
        show ?thesis by simp
      qed
    qed
  qed
qed

lemma fill_invariant:
  assumes step: "\<And>v s e s'. I s \<Longrightarrow> c v s = (e, s') \<Longrightarrow> I s'"
  shows "consume sh = c \<Longrightarrow> I s \<Longrightarrow> fill sh s = (err, sh', s') \<Longrightarrow> I s'"
proof (induction sh s rule: fill.induct)
  case (1 sh s)
  show ?case
  proof (cases "cursor sh < length (perm sh)")
    case False
    with "1.prems" show ?thesis by (simp add: fill.simps)
  next
    case True
    let ?v = "case buffer sh (cursor sh) of None \<Rightarrow> placeholder sh | Some v \<Rightarrow> v"
    obtain e t where ct: "consume sh ?v s = (e, t)" by (cases "consume sh ?v s")
    have It: "I t" using step[OF "1.prems"(2)] ct "1.prems"(1) by simp
    show ?thesis
    proof (cases e)
      case (Some x)
      with True ct "1.prems"(3) It show ?thesis
        by (simp add: fill.simps)
    next
      case None
      let ?sh1 = "sh\<lparr>buffer := (buffer sh)(cursor sh := None), cursor := Suc (cursor sh)\<rparr>"
      from True ct None "1.prems"(3)
      have d: "fill ?sh1 t = (err, sh', s')"
        by (subst (asm) fill.simps) simp
      have c1: "consume ?sh1 = c" using "1.prems"(1) by simp
      from "1.IH"[OF True ct[symmetric] _ c1 It d] None
      show ?thesis by simp
    qed
  qed
qed

lemma Put_invariant:
  assumes step: "\<And>v s e s'. I s \<Longrightarrow> c v s = (e, s') \<Longrightarrow> I s'"
    and "consume sh = c" and "I s" and "Put v sh s = (err, sh', s')"
  shows "I s' \<and> consume sh' = c"
proof (cases "count sh < length (perm sh)")
  case False
  with assms show ?thesis by (simp add: Put_def)
next
  case True
  let ?sh1 = "sh\<lparr>buffer := (buffer sh)(perm sh ! count sh \<mapsto> v), count := Suc (count sh)\<rparr>"
  from True assms(4) have d: "drain ?sh1 s = (err, sh', s')"
    by (simp add: Put_def)
  have c1: "consume ?sh1 = c" using assms(2) by simp
  from drain_invariant[of I c, OF step c1 assms(3) d] drain_keeps[OF d] c1
  show ?thesis by simp
qed

lemma put_loop_invariant:
  assumes step: "\<And>v s e s'. I s \<Longrightarrow> c v s = (e, s') \<Longrightarrow> I s'"
  shows "consume sh = c \<Longrightarrow> I s \<Longrightarrow> put_loop vs sh s = (err, sh', s') \<Longrightarrow>
         I s' \<and> consume sh' = c"
proof (induction vs arbitrary: sh s)
  case Nil
  then show ?case by simp
next
  case (Cons v vs)
  obtain e sh1 s1 where p: "Put v sh s = (e, sh1, s1)" by (cases "Put v sh s")
  from Put_invariant[of I c, OF step Cons.prems(1,2) p]
  have i1: "I s1" and c1: "consume sh1 = c" by simp_all
  show ?case
  proof (cases e)
    case (Some x)
    with Cons.prems(3) p i1 c1 show ?thesis by simp
  next
    case None
    with Cons.prems(3) p have "put_loop vs sh1 s1 = (err, sh', s')" by simp
    from Cons.IH[OF c1 i1 this] show ?thesis .
  qed
qed

lemma put_then_end_invariant:
  assumes step: "\<And>v s e s'. I s \<Longrightarrow> c v s = (e, s') \<Longrightarrow> I s'"
    and "consume sh = c" and "I s"
  shows "I (snd (put_then_end vs sh s))"
proof -
  obtain e sh1 s1 where p: "put_loop vs sh s = (e, sh1, s1)" by (cases "put_loop vs sh s")
  from put_loop_invariant[of I c, OF step assms(2,3) p]
  have i1: "I s1" and c1: "consume sh1 = c" by simp_all
  show ?thesis
  proof (cases e)
    case (Some x)
    with p i1 show ?thesis by (simp add: put_then_end_def)
  next
    case None
    obtain e2 sh2 s2 where f: "fill sh1 s1 = (e2, sh2, s2)" by (cases "fill sh1 s1")
    from fill_invariant[of I c, OF step c1 i1 f] have "I s2" .
    with p None f show ?thesis by (simp add: put_then_end_def End_def)
  qed
qed

lemma onSlot_handles_disposed:
  assumes "handles_disposed st0 (storage wd)" and "onSlot f k wd = (e, wd')"
  shows "handles_disposed st0 (storage wd')"
proof (cases "ReadBit (bits wd)")
  case (Inl err)
  with assms show ?thesis by (simp add: onSlot_def)
next
  case (Inr a)
  then obtain b br where rb: "ReadBit (bits wd) = Inr (b, br)" by (cases a) simp
  show ?thesis
  proof (cases "k = emptyKey")
    case True
    with assms rb show ?thesis by (auto simp: onSlot_def split: if_splits)
  next
    case False
    show ?thesis
    proof (cases "blobs (storage wd) k")
      case None
      with assms rb False show ?thesis by (auto simp: onSlot_def Get_def)
    next
      case (Some bs)
      let ?n = "issued (storage wd)"
      let ?chunk = "\<lparr>handle = ?n, chunks = [(k, bs)]\<rparr>"
      obtain r u' where f: "f ?chunk b (user wd) = (r, u')" by (cases "f ?chunk b (user wd)")
      from assms(2) rb False Some f
      have st': "storage wd' = (storage wd)\<lparr>issued := Suc ?n,
                    events := events (storage wd) @ [Acquired ?n, Disposed ?n]\<rparr>"
        by (auto simp: onSlot_def Get_def Dispose_def)
      from assms(1) show ?thesis
        by (simp add: handles_disposed_def st')
    qed
  qed
qed

text \<open>
  C9. Whatever \<^verbatim>\<open>forEachChunk\<close> returns, every chunk handle it obtained from
  \<^verbatim>\<open>storage.Get\<close> has been disposed exactly once by then, right after the delegate
  returned. When the delegate returns an error for a chunk, the closure returns that
  error with the handle already disposed.
\<close>

theorem forEachChunk_disposes_handles:
  "handles_disposed st (storage (snd (forEachChunk st file r p f u))) \<and>
   (\<forall>wd key b br chunk st' e u'.
      ReadBit (bits wd) = Inr (b, br) \<and> key \<noteq> emptyKey \<and>
      Get (storage wd) key = Inr (chunk, st') \<and> f chunk b (user wd) = (Some e, u') \<longrightarrow>
      onSlot f key wd = (Some e, \<lparr>bits = br, storage = Dispose chunk st', user = u'\<rparr>) \<and>
      events (Dispose chunk st') = events (storage wd) @ [Acquired (handle chunk), Disposed (handle chunk)])"
proof -
  let ?wd0 = "\<lparr>bits = newBitReader r, storage = st, user = u\<rparr>"
  let ?sh = "NewStreamShuffler p emptyKey (onSlot f)"
  have step: "\<And>v s e s'. handles_disposed st (storage s) \<Longrightarrow> onSlot f v s = (e, s') \<Longrightarrow>
      handles_disposed st (storage s')"
    by (rule onSlot_handles_disposed)
  have "handles_disposed st (storage ?wd0)"
    by (simp add: handles_disposed_def)
  from put_then_end_invariant[of "\<lambda>wd. handles_disposed st (storage wd)" "onSlot f" ?sh ?wd0,
      OF step _ this]
  have inv: "handles_disposed st (storage (snd (put_then_end (chunk_keys file) ?sh ?wd0)))"
    by (simp add: NewStreamShuffler_def)
  have a: "handles_disposed st (storage (snd (forEachChunk st file r p f u)))"
    using inv by (auto simp: forEachChunk_def split: prod.splits option.splits sum.splits)
  have b: "\<forall>wd key b br chunk st' e u'.
      ReadBit (bits wd) = Inr (b, br) \<and> key \<noteq> emptyKey \<and>
      Get (storage wd) key = Inr (chunk, st') \<and> f chunk b (user wd) = (Some e, u') \<longrightarrow>
      onSlot f key wd = (Some e, \<lparr>bits = br, storage = Dispose chunk st', user = u'\<rparr>) \<and>
      events (Dispose chunk st') = events (storage wd) @ [Acquired (handle chunk), Disposed (handle chunk)]"
    by (auto simp: onSlot_def Get_def Dispose_def split: option.splits)
  show ?thesis by (rule conjI[OF a b])
qed


theorem forEachChunk_disposes_handles_witness:
  "fst (forEachChunk \<lparr>blobs = [7 \<mapsto> [1, 2, 3], 9 \<mapsto> [4]], issued = 0, events = []\<rparr>
       \<lparr>handle = 0, chunks = [(7, [1, 2, 3]), (9, [4])]\<rparr>
       \<lparr>pending = [0xA0], ending = EOF\<rparr> [2, 0, 1] (\<lambda>c b u. (Some IOError, u)) ()) =
     Some IOError \<and>
   events (storage (snd (forEachChunk
       \<lparr>blobs = [7 \<mapsto> [1, 2, 3], 9 \<mapsto> [4]], issued = 0, events = []\<rparr>
       \<lparr>handle = 0, chunks = [(7, [1, 2, 3]), (9, [4])]\<rparr>
       \<lparr>pending = [0xA0], ending = EOF\<rparr> [2, 0, 1] (\<lambda>c b u. (Some IOError, u)) ()))) =
     [Acquired 0, Disposed 0]"
proof -
  let ?file = "\<lparr>handle = 0, chunks = [(7, [1, 2, 3]), (9, [4])]\<rparr>"
  let ?st = "\<lparr>blobs = [7 \<mapsto> [1, 2, 3], 9 \<mapsto> [4]], issued = 0, events = []\<rparr>"
  let ?f = "\<lambda>(c::File) (b::bool) (u::unit). (Some IOError, u)"
  let ?r = "\<lparr>pending = [0xA0], ending = EOF\<rparr>"
  let ?wd0 = "\<lparr>bits = newBitReader ?r, storage = ?st, user = ()\<rparr>"
  let ?br = "\<lparr>src = \<lparr>pending = [], ending = EOF\<rparr>, cur = 0x40, nbits = 7\<rparr>"
  let ?chunk = "\<lparr>handle = 0, chunks = [(9, [4])]\<rparr>"
  let ?st' = "\<lparr>blobs = [7 \<mapsto> [1, 2, 3], 9 \<mapsto> [4]], issued = 1, events = [Acquired 0]\<rparr>"
  have a: "perm_ok [2, 0, 1]" by (simp add: perm_ok_def)
  have b: "length (chunks ?file) \<le> length [2, 0, 1 :: nat]" by simp
  have pre: "ReadBit (bits ?wd0) = Inr (True, ?br) \<and> (9 :: SKey) \<noteq> emptyKey \<and>
      Get (storage ?wd0) 9 = Inr (?chunk, ?st') \<and> ?f ?chunk True (user ?wd0) = (Some IOError, ())"
    by (simp add: ReadBit_def ReadByte_def newBitReader_def Get_def emptyKey_def)
  note inst = forEachChunk_disposes_handles[of ?st ?file ?r "[2, 0, 1]" ?f "()"]
  from inst pre
  have slot: "onSlot ?f 9 ?wd0 =
      (Some IOError, \<lparr>bits = ?br, storage = Dispose ?chunk ?st', user = ()\<rparr>)"
    by blast
  have run: "forEachChunk ?st ?file ?r [2, 0, 1] ?f () =
      (Some IOError, \<lparr>bits = ?br, storage = Dispose ?chunk ?st', user = ()\<rparr>)"
    unfolding forEachChunk_run[OF a b] shuffled_example
    by (simp add: slot)
  from inst have "handles_disposed ?st (storage (snd (forEachChunk ?st ?file ?r [2, 0, 1] ?f ())))"
    by blast
  with run show ?thesis
    by (simp add: handles_disposed_def Dispose_def)
qed

section \<open>The slot sequence as a multiset; successful runs of WriteChunkData\<close>

lemma perm_ok_set: 
  assumes "perm_ok p"
  shows "set p = {..<length p}"
proof -
  have sub: "set p \<subseteq> {..<length p}"
    using assms by (auto simp: perm_ok_def list_all_iff)
  have "card (set p) = length p"
    using assms by (simp add: perm_ok_def distinct_card)
  then have "card (set p) = card {..<length p}" by simp
  with sub show ?thesis
    by (simp add: card_subset_eq)
qed

lemma perm_ok_mset: "perm_ok p \<Longrightarrow> mset [0..<length p] = mset p"
proof -
  assume ok: "perm_ok p"
  have "set [0..<length p] = {..<length p}"
    by (simp add: atLeast0LessThan)
  also have "\<dots> = set p"
    by (rule perm_ok_set[OF ok, symmetric])
  finally have s: "set [0..<length p] = set p" .
  have d1: "distinct [0..<length p]" by simp
  have d2: "distinct p" using ok by (simp add: perm_ok_def)
  show ?thesis
    by (rule iffD1[OF set_eq_iff_mset_eq_distinct[OF d1 d2] s])
qed

lemma slot_item_at_perm:
  assumes "perm_ok p" and "length vs \<le> length p" and "i < length p"
  shows "slot_item (map_of (zip p vs)) ph (p ! i) = (vs @ replicate (length p - length vs) ph) ! i"
proof (cases "i < length vs")
  case True
  have "zip p vs = take (length vs) (zip p vs)"
    by simp
  then have z: "zip p vs = zip (take (length vs) p) vs"
    by (simp add: take_zip)
  have "map_of (zip (take (length vs) p) vs) (take (length vs) p ! i) = Some (vs ! i)"
    using assms True by (intro map_of_zip_nth) (simp_all add: perm_ok_def)
  then have "map_of (zip p vs) (p ! i) = Some (vs ! i)"
    using True by (simp add: z)
  with True show ?thesis
    by (simp add: slot_item_def nth_append)
next
  case False
  have "p ! i \<notin> set (take (length vs) p)"
  proof
    assume "p ! i \<in> set (take (length vs) p)"
    then obtain j where j: "j < length vs" "j < length p" "p ! j = p ! i"
      by (auto simp: in_set_conv_nth)
    with assms(1,3) have "j = i"
      by (simp add: perm_ok_def nth_eq_iff_index_eq)
    with j False show False by simp
  qed
  moreover have "map fst (zip p vs) = take (length vs) p"
    using assms(2) by (simp add: map_fst_zip_take min_def)
  then have "fst ` set (zip p vs) = set (take (length vs) p)"
    by (simp only: set_map[symmetric])
  ultimately have "map_of (zip p vs) (p ! i) = None"
    by (simp only: map_of_eq_None_iff not_False_eq_True)
  with False assms(3) show ?thesis
    by (simp add: slot_item_def nth_append)
qed

lemma mset_shuffled:
  assumes "perm_ok p" and "length vs \<le> length p"
  shows "mset (shuffled p ph vs) = mset vs + replicate_mset (length p - length vs) ph"
proof -
  let ?F = "slot_item (map_of (zip p vs)) ph"
  have "map ?F p = vs @ replicate (length p - length vs) ph"
    using assms by (intro nth_equalityI) (simp_all add: slot_item_at_perm)
  then have "mset (map ?F p) = mset vs + replicate_mset (length p - length vs) ph"
    by simp
  moreover have "mset (map ?F [0..<length p]) = mset (map ?F p)"
  proof -
    have "mset (map ?F [0..<length p]) = image_mset ?F (mset [0..<length p])"
      by (rule mset_map)
    also have "\<dots> = image_mset ?F (mset p)"
      by (simp only: perm_ok_mset[OF assms(1)])
    also have "\<dots> = mset (map ?F p)"
      by (rule mset_map[symmetric])
    finally show ?thesis .
  qed
  ultimately show ?thesis
    by (simp add: shuffled_def)
qed

lemma Size_single: "Size \<lparr>handle = n, chunks = [(k, d)]\<rparr> = int (length d)"
  by (simp add: Size_def)

lemma Open_single: "Open \<lparr>handle = n, chunks = [(k, d)]\<rparr> = d"
  by (simp add: Open_def)

lemma notify_fields:
  "out (notify cb t) = out t" "bytesToTransfer (notify cb t) = bytesToTransfer t"
  "bytesTransferred (notify cb t) = bytesTransferred t"
  "observer (notify cb t) =
     (case cb of None \<Rightarrow> observer t
      | Some g \<Rightarrow> g (bytesToTransfer t) (bytesTransferred t) (observer t))"
  by (simp_all add: notify_def split: option.splits)

lemma sendChunk_requested:
  assumes "sendChunk cb chunk True t = (None, t')"
  shows "written (out t') = written (out t) @ varint (nat (Size chunk)) @ Open chunk"
    and "bytesTransferred t' = bytesTransferred t + int (length (Open chunk))"
    and "bytesToTransfer t' = bytesToTransfer t"
    and "observer t' =
     (case cb of None \<Rightarrow> observer t
      | Some g \<Rightarrow> g (bytesToTransfer t) (bytesTransferred t + int (length (Open chunk))) (observer t))"
proof -
  obtain e1 w1 where v: "writeVarint (out t) (Size chunk) = (e1, w1)"
    by (cases "writeVarint (out t) (Size chunk)")
  obtain n e2 w2 where c: "Copy w1 (Open chunk) = (n, e2, w2)"
    by (cases "Copy w1 (Open chunk)")
  from assms v have e1: "e1 = None"
    by (auto simp: sendChunk_def split: option.splits)
  from assms v c e1 have e2: "e2 = None"
    by (auto simp: sendChunk_def split: option.splits)
  from assms v c e1 e2
  have t': "t' = notify cb (t\<lparr>out := w2, bytesTransferred := bytesTransferred t + int n\<rparr>)"
    by (simp add: sendChunk_def)
  from v e1 have w1: "written w1 = written (out t) @ varint (nat (Size chunk))"
    by (simp add: writeVarint_success)
  from c e2 have w2: "written w2 = written w1 @ Open chunk" and n: "n = length (Open chunk)"
    using Write_success[of w1 "Open chunk" n w2] by (simp_all add: Copy_def)
  show "written (out t') = written (out t) @ varint (nat (Size chunk)) @ Open chunk"
    by (simp add: t' notify_fields w1 w2)
  show "bytesTransferred t' = bytesTransferred t + int (length (Open chunk))"
    by (simp add: t' notify_fields n)
  show "bytesToTransfer t' = bytesToTransfer t"
    by (simp add: t' notify_fields)
  show "observer t' =
     (case cb of None \<Rightarrow> observer t
      | Some g \<Rightarrow> g (bytesToTransfer t) (bytesTransferred t + int (length (Open chunk))) (observer t))"
    by (simp add: t' notify_fields n split: option.splits)
qed

lemma sendChunk_declined:
  "sendChunk cb chunk False t = (None, notify cb (t\<lparr>bytesToTransfer := bytesToTransfer t - Size chunk\<rparr>))"
  by (simp add: sendChunk_def)

lemma onSlot_success:
  assumes "onSlot f k wd = (None, wd')" and "ReadBit (bits wd) = Inr (b, br)"
  shows "bits wd' = br" and "blobs (storage wd') = blobs (storage wd)"
    and "k = emptyKey \<Longrightarrow> \<not> b \<and> user wd' = user wd"
    and "k \<noteq> emptyKey \<Longrightarrow>
          \<exists>d. blobs (storage wd) k = Some d \<and>
              f \<lparr>handle = issued (storage wd), chunks = [(k, d)]\<rparr> b (user wd) = (None, user wd')"
  using assms
  by (auto simp: onSlot_def Get_def Dispose_def split: if_splits option.splits prod.splits)

lemma requested_Cons:
  "requested B ((k, b) # kbs) =
     (if k \<noteq> emptyKey \<and> b then chunk_of B k # requested B kbs else requested B kbs)"
  by (simp add: requested_def)

lemma declined_Cons:
  "declined B ((k, b) # kbs) =
     (if k \<noteq> emptyKey \<and> \<not> b then chunk_of B k # declined B kbs else declined B kbs)"
  by (simp add: declined_def)

lemma data_stream_Cons: "data_stream (d # ds) = varint (length d) @ d @ data_stream ds"
  by (simp add: data_stream_def)

lemma data_stream_Nil: "data_stream [] = []"
  by (simp add: data_stream_def)

lemma emit_all_sendChunk_success:
  "emit_all (onSlot (sendChunk cb)) ks wd = (None, wd') \<Longrightarrow>
   read_bits (length ks) (bits wd) = Inr (bs, br) \<Longrightarrow>
   blobs (storage wd') = blobs (storage wd) \<and>
   written (out (user wd')) =
     written (out (user wd)) @ data_stream (requested (blobs (storage wd)) (zip ks bs)) \<and>
   bytesTransferred (user wd') =
     bytesTransferred (user wd) +
       int (sum_list (map length (requested (blobs (storage wd)) (zip ks bs)))) \<and>
   bytesToTransfer (user wd') =
     bytesToTransfer (user wd) -
       int (sum_list (map length (declined (blobs (storage wd)) (zip ks bs)))) \<and>
   observer (user wd') =
     (case cb of None \<Rightarrow> observer (user wd)
      | Some g \<Rightarrow> apply_status g (observer (user wd))
          (progress (blobs (storage wd))
             (bytesToTransfer (user wd), bytesTransferred (user wd)) (zip ks bs)))"
proof (induction ks arbitrary: wd bs)
  case Nil
  then show ?case
    by (simp add: requested_def declined_def data_stream_def apply_status_def split: option.splits)
next
  case (Cons k ks)
  let ?B = "blobs (storage wd)"
  obtain e wd1 where s: "onSlot (sendChunk cb) k wd = (e, wd1)"
    by (cases "onSlot (sendChunk cb) k wd")
  with Cons.prems(1) have e: "e = None"
    and rest: "emit_all (onSlot (sendChunk cb)) ks wd1 = (None, wd')"
    by (auto split: option.splits)
  from Cons.prems(2) obtain b br1 bs1 where
    rb: "ReadBit (bits wd) = Inr (b, br1)" and rbs: "read_bits (length ks) br1 = Inr (bs1, br)"
    and bs: "bs = b # bs1"
    by (auto split: sum.splits prod.splits)
  note os = onSlot_success[OF s[unfolded e] rb]
  have rbs': "read_bits (length ks) (bits wd1) = Inr (bs1, br)"
    using rbs os(1) by simp
  note ih = Cons.IH[OF rest rbs', unfolded os(2)]
  show ?case
  proof (cases "k = emptyKey")
    case True
    from os(3)[OF True] have u: "user wd1 = user wd" and nb: "\<not> b" by simp_all
    from ih show ?thesis
      by (simp add: bs u True requested_Cons declined_Cons cong: option.case_cong)
  next
    case False
    from os(4)[OF False] obtain d where
      d: "?B k = Some d"
      and f: "sendChunk cb \<lparr>handle = issued (storage wd), chunks = [(k, d)]\<rparr> b (user wd) =
                (None, user wd1)"
      by blast
    have cd: "chunk_of ?B k = d" by (simp add: chunk_of_def d)
    show ?thesis
    proof (cases b)
      case True
      from f True
      have f': "sendChunk cb \<lparr>handle = issued (storage wd), chunks = [(k, d)]\<rparr> True (user wd) =
                (None, user wd1)"
        by simp
      note sc = sendChunk_requested[OF f', unfolded Size_single Open_single]
      from ih show ?thesis
        by (simp add: bs True False requested_Cons declined_Cons data_stream_Cons cd sc
            apply_status_def cong: option.case_cong)
    next
      case nb: False
      from f have u1: "user wd1 =
          notify cb ((user wd)\<lparr>bytesToTransfer := bytesToTransfer (user wd) - int (length d)\<rparr>)"
        by (simp add: nb sendChunk_declined Size_single)
      from ih show ?thesis
        by (simp add: bs nb False requested_Cons declined_Cons cd u1 notify_fields
            apply_status_def cong: option.case_cong)
    qed
  qed
qed

section \<open>WriteChunkData: the data stream and the status callback\<close>

lemma length_data_stream:
  "length (data_stream ds) =
     sum_list (map length ds) + sum_list (map (\<lambda>d. length (varint (length d))) ds)"
  by (induction ds) (simp_all add: data_stream_Nil data_stream_Cons)

lemma WriteChunkData_success:
  assumes "perm_ok p" and "length (chunks file) \<le> length p"
    and "WriteChunkData st file r p w cb ob = (None, wd)"
  shows "\<exists>bs br. length bs = length p \<and>
     read_bits (length p) (newBitReader r) = Inr (bs, br) \<and>
     written (out (user wd)) =
       written w @ data_stream (requested (blobs st) (zip (shuffled p emptyKey (chunk_keys file)) bs)) \<and>
     bytesTransferred (user wd) =
       int (sum_list (map length (requested (blobs st) (zip (shuffled p emptyKey (chunk_keys file)) bs)))) \<and>
     bytesToTransfer (user wd) =
       Size file -
       int (sum_list (map length (declined (blobs st) (zip (shuffled p emptyKey (chunk_keys file)) bs)))) \<and>
     observer (user wd) =
       (case cb of None \<Rightarrow> ob
        | Some g \<Rightarrow> apply_status g ob
            ((Size file, 0) #
             progress (blobs st) (Size file, 0) (zip (shuffled p emptyKey (chunk_keys file)) bs)))"
proof -
  let ?slots = "shuffled p emptyKey (chunk_keys file)"
  let ?t0 = "notify cb \<lparr>out = w, bytesToTransfer = Size file, bytesTransferred = 0, observer = ob\<rparr>"
  let ?wd0 = "\<lparr>bits = newBitReader r, storage = st, user = ?t0\<rparr>"
  from assms(3) have fe: "forEachChunk st file r p (sendChunk cb) ?t0 = (None, wd)"
    by (simp add: WriteChunkData_def)
  from forEachChunk_success[OF assms(1,2) fe]
  have run: "emit_all (onSlot (sendChunk cb)) ?slots ?wd0 = (None, wd)" by simp
  from emit_all_onSlot_bits[OF run] obtain bs where
    rb: "read_bits (length p) (newBitReader r) = Inr (bs, bits wd)"
    by (auto simp: length_shuffled)
  have "nbits (newBitReader r) \<le> 7" by (simp add: newBitReader_def)
  from read_bits_success[OF rb this] have len: "length bs = length p" by simp
  have rb': "read_bits (length ?slots) (bits ?wd0) = Inr (bs, bits wd)"
    using rb by (simp add: length_shuffled)
  note m = emit_all_sendChunk_success[OF run rb']
  have obs: "(case cb of None \<Rightarrow> observer ?t0
        | Some g \<Rightarrow> apply_status g (observer ?t0)
            (progress (blobs st) (Size file, 0) (zip ?slots bs))) =
      (case cb of None \<Rightarrow> ob
        | Some g \<Rightarrow> apply_status g ob
            ((Size file, 0) # progress (blobs st) (Size file, 0) (zip ?slots bs)))"
    by (simp add: notify_fields apply_status_def split: option.splits)
  from m have
    "written (out (user wd)) = written w @ data_stream (requested (blobs st) (zip ?slots bs))"
    "bytesTransferred (user wd) = int (sum_list (map length (requested (blobs st) (zip ?slots bs))))"
    "bytesToTransfer (user wd) =
       Size file - int (sum_list (map length (declined (blobs st) (zip ?slots bs))))"
    "observer (user wd) =
       (case cb of None \<Rightarrow> observer ?t0
        | Some g \<Rightarrow> apply_status g (observer ?t0)
            (progress (blobs st) (Size file, 0) (zip ?slots bs)))"
    by (simp_all add: notify_fields cong: option.case_cong)
  with rb len obs show ?thesis
    by (intro exI[of _ bs] exI[of _ "bits wd"]) simp
qed

text \<open>
  C6. In a run of \<^verbatim>\<open>WriteChunkData\<close> that returns without error, each slot is paired
  with the wishlist bit read for it. What was written is, slot after slot, the varint
  of the size followed by the bytes of every requested chunk that is not a placeholder,
  and nothing for any other slot; so the length of the stream is the sum of the sizes
  of the requested chunks plus the lengths of their varint prefixes. At the end
  \<^verbatim>\<open>bytesTransferred\<close> is the sum of the sizes of the requested chunks and
  \<^verbatim>\<open>bytesToTransfer\<close> the size of the file less the sizes of the declined chunks.
\<close>

theorem WriteChunkData_stream:
  assumes "perm_ok p" and "length (chunks file) \<le> length p"
    and "WriteChunkData st file r p w cb ob = (None, wd)"
  shows "\<exists>bs br. length bs = length p \<and>
     read_bits (length p) (newBitReader r) = Inr (bs, br) \<and>
     written (out (user wd)) =
       written w @ data_stream (requested (blobs st) (zip (shuffled p emptyKey (chunk_keys file)) bs)) \<and>
     length (data_stream (requested (blobs st) (zip (shuffled p emptyKey (chunk_keys file)) bs))) =
       sum_list (map length (requested (blobs st) (zip (shuffled p emptyKey (chunk_keys file)) bs))) +
       sum_list (map (\<lambda>d. length (varint (length d)))
         (requested (blobs st) (zip (shuffled p emptyKey (chunk_keys file)) bs))) \<and>
     bytesTransferred (user wd) =
       int (sum_list (map length (requested (blobs st) (zip (shuffled p emptyKey (chunk_keys file)) bs)))) \<and>
     bytesToTransfer (user wd) =
       Size file -
       int (sum_list (map length (declined (blobs st) (zip (shuffled p emptyKey (chunk_keys file)) bs))))"
proof -
  from WriteChunkData_success[OF assms] obtain bs br where
    "length bs = length p" "read_bits (length p) (newBitReader r) = Inr (bs, br)"
    "written (out (user wd)) =
       written w @ data_stream (requested (blobs st) (zip (shuffled p emptyKey (chunk_keys file)) bs))"
    "bytesTransferred (user wd) =
       int (sum_list (map length (requested (blobs st) (zip (shuffled p emptyKey (chunk_keys file)) bs))))"
    "bytesToTransfer (user wd) =
       Size file -
       int (sum_list (map length (declined (blobs st) (zip (shuffled p emptyKey (chunk_keys file)) bs))))"
    by blast
  then show ?thesis
    by (intro exI[of _ bs] exI[of _ br]) (simp add: length_data_stream)
qed


lemma varint_small: "n < 128 \<Longrightarrow> varint n = [of_nat n]"
  by (simp add: varint.simps)

lemma perm_ok_example: "perm_ok [2, 0, 1]"
  by (simp add: perm_ok_def)

lemma WriteChunkData_example:
  "WriteChunkData \<lparr>blobs = [7 \<mapsto> [1, 2, 3], 9 \<mapsto> [4]], issued = 0, events = []\<rparr>
       \<lparr>handle = 0, chunks = [(7, [1, 2, 3]), (9, [4])]\<rparr>
       \<lparr>pending = [0x20], ending = EOF\<rparr> [2, 0, 1] \<lparr>written = [], room = None\<rparr>
       (Some record_status) [] =
     (None,
      \<lparr>bits = \<lparr>src = \<lparr>pending = [], ending = EOF\<rparr>, cur = 0, nbits = 5\<rparr>,
       storage = \<lparr>blobs = [7 \<mapsto> [1, 2, 3], 9 \<mapsto> [4]], issued = 2,
                  events = [Acquired 0, Disposed 0, Acquired 1, Disposed 1]\<rparr>,
       user = \<lparr>out = \<lparr>written = [3, 1, 2, 3], room = None\<rparr>, bytesToTransfer = 3,
               bytesTransferred = 3, observer = [(4, 0), (3, 0), (3, 3)]\<rparr>\<rparr>)"
proof -
  let ?file = "\<lparr>handle = 0, chunks = [(7, [1, 2, 3]), (9, [4])]\<rparr>"
  have b: "length (chunks ?file) \<le> length [2, 0, 1 :: nat]" by simp
  show ?thesis
    unfolding WriteChunkData_def forEachChunk_run[OF perm_ok_example b] shuffled_example
    by (simp add: onSlot_def ReadBit_def ReadByte_def newBitReader_def Get_def Dispose_def
        emptyKey_def sendChunk_def notify_def record_status_def writeVarint_def Write_def
        Copy_def Size_def Open_def varint_small)
qed

theorem WriteChunkData_stream_witness:
  "perm_ok [2, 0, 1] \<and>
   length (chunks \<lparr>handle = 0, chunks = [(7, [1, 2, 3]), (9, [4])]\<rparr>) \<le> length [2, 0, 1 :: nat] \<and>
   WriteChunkData \<lparr>blobs = [7 \<mapsto> [1, 2, 3], 9 \<mapsto> [4]], issued = 0, events = []\<rparr>
       \<lparr>handle = 0, chunks = [(7, [1, 2, 3]), (9, [4])]\<rparr>
       \<lparr>pending = [0x20], ending = EOF\<rparr> [2, 0, 1] \<lparr>written = [], room = None\<rparr>
       (Some record_status) [] =
     (None,
      \<lparr>bits = \<lparr>src = \<lparr>pending = [], ending = EOF\<rparr>, cur = 0, nbits = 5\<rparr>,
       storage = \<lparr>blobs = [7 \<mapsto> [1, 2, 3], 9 \<mapsto> [4]], issued = 2,
                  events = [Acquired 0, Disposed 0, Acquired 1, Disposed 1]\<rparr>,
       user = \<lparr>out = \<lparr>written = [3, 1, 2, 3], room = None\<rparr>, bytesToTransfer = 3,
               bytesTransferred = 3, observer = [(4, 0), (3, 0), (3, 3)]\<rparr>\<rparr>) \<and>
   read_bits 3 (newBitReader \<lparr>pending = [0x20], ending = EOF\<rparr>) =
     Inr ([False, False, True], \<lparr>src = \<lparr>pending = [], ending = EOF\<rparr>, cur = 0, nbits = 5\<rparr>) \<and>
   [3, 1, 2, 3] =
     data_stream (requested [7 \<mapsto> [1, 2, 3], 9 \<mapsto> [4]]
       (zip (shuffled [2, 0, 1] emptyKey
               (chunk_keys \<lparr>handle = 0, chunks = [(7, [1, 2, 3]), (9, [4])]\<rparr>))
            [False, False, True]))"
proof -
  let ?file = "\<lparr>handle = 0, chunks = [(7, [1, 2, 3]), (9, [4])]\<rparr>"
  let ?st = "\<lparr>blobs = [7 \<mapsto> [1, 2, 3], 9 \<mapsto> [4]], issued = 0, events = []\<rparr>"
  let ?r = "\<lparr>pending = [0x20], ending = EOF\<rparr>"
  let ?w = "\<lparr>written = [], room = None\<rparr>"
  let ?br = "\<lparr>src = \<lparr>pending = [], ending = EOF\<rparr>, cur = 0, nbits = 5\<rparr>"
  let ?wd = "\<lparr>bits = ?br,
       storage = \<lparr>blobs = [7 \<mapsto> [1, 2, 3], 9 \<mapsto> [4]], issued = 2,
                  events = [Acquired 0, Disposed 0, Acquired 1, Disposed 1]\<rparr>,
       user = \<lparr>out = \<lparr>written = [3, 1, 2, 3], room = None\<rparr>, bytesToTransfer = 3,
               bytesTransferred = 3, observer = [(4 :: int, 0 :: int), (3, 0), (3, 3)]\<rparr>\<rparr>"
  have a: "perm_ok [2, 0, 1]" by (simp add: perm_ok_def)
  have b: "length (chunks ?file) \<le> length [2, 0, 1 :: nat]" by simp
  have run: "WriteChunkData ?st ?file ?r [2, 0, 1] ?w (Some record_status) [] = (None, ?wd)"
    by (rule WriteChunkData_example)
  have rb: "read_bits 3 (newBitReader ?r) = Inr ([False, False, True], ?br)"
    by (simp add: numeral_3_eq_3 ReadBit_def ReadByte_def newBitReader_def)
  from WriteChunkData_stream[OF a b run] obtain bs br where
    c: "read_bits (length [2, 0, 1 :: nat]) (newBitReader ?r) = Inr (bs, br)"
    and d: "written (out (user ?wd)) =
       written ?w @ data_stream (requested (blobs ?st)
          (zip (shuffled [2, 0, 1] emptyKey (chunk_keys ?file)) bs))"
    by (elim exE conjE) (rule that)
  have l3: "length [2, 0, 1 :: nat] = 3" by simp
  from trans[OF c[unfolded l3, symmetric] rb] have "bs = [False, False, True]" by simp
  with d have "[3, 1, 2, 3] = data_stream (requested [7 \<mapsto> [1, 2, 3], 9 \<mapsto> [4]]
       (zip (shuffled [2, 0, 1] emptyKey (chunk_keys ?file)) [False, False, True]))"
    by simp
  with a b run rb show ?thesis by blast
qed

lemma emit_all_invariant:
  assumes step: "\<And>v s e s'. I s \<Longrightarrow> c v s = (e, s') \<Longrightarrow> I s'"
  shows "I s \<Longrightarrow> I (snd (emit_all c vs s))"
proof (induction vs arbitrary: s)
  case Nil
  then show ?case by simp
next
  case (Cons v vs)
  obtain e s1 where c: "c v s = (e, s1)" by (cases "c v s")
  from step[OF Cons.prems c] have "I s1" .
  with Cons.IH[of s1] c show ?case
    by (cases e) simp_all
qed

lemma onSlot_user_invariant:
  assumes "\<And>chunk b u e u'. Q u \<Longrightarrow> f chunk b u = (e, u') \<Longrightarrow> Q u'"
    and "Q (user wd)" and "onSlot f k wd = (e, wd')"
  shows "Q (user wd')"
  using assms(2,3) assms(1)
  by (auto simp: onSlot_def split: sum.splits prod.splits if_splits)

lemma forEachChunk_user_invariant:
  assumes "\<And>chunk b u e u'. Q u \<Longrightarrow> f chunk b u = (e, u') \<Longrightarrow> Q u'"
    and "Q u"
  shows "Q (user (snd (forEachChunk st file r p f u)))"
proof -
  let ?wd0 = "\<lparr>bits = newBitReader r, storage = st, user = u\<rparr>"
  let ?sh = "NewStreamShuffler p emptyKey (onSlot f)"
  have step: "\<And>v s e s'. Q (user s) \<Longrightarrow> onSlot f v s = (e, s') \<Longrightarrow> Q (user s')"
    using onSlot_user_invariant[of Q f] assms(1) by blast
  have "Q (user ?wd0)" using assms(2) by simp
  from put_then_end_invariant[of "\<lambda>wd. Q (user wd)" "onSlot f" ?sh ?wd0, OF step _ this]
  have inv: "Q (user (snd (put_then_end (chunk_keys file) ?sh ?wd0)))"
    by (simp add: NewStreamShuffler_def)
  then show ?thesis
    by (auto simp: forEachChunk_def split: prod.splits option.splits sum.splits)
qed

lemma sendChunk_no_callback:
  "sendChunk None chunk b t = (e, t') \<Longrightarrow> observer t' = observer t"
  by (auto simp: sendChunk_def notify_def split: if_splits prod.splits option.splits)

lemma apply_status_snoc:
  "apply_status g ob (snaps @ [s]) = g (fst s) (snd s) (apply_status g ob snaps)"
  by (simp add: apply_status_def)

lemma sendChunk_callback:
  assumes "sendChunk (Some g) chunk b t = (e, t')"
    and "\<exists>snaps. observer t = apply_status g ob (s0 # snaps)"
  shows "\<exists>snaps. observer t' = apply_status g ob (s0 # snaps)"
proof -
  from assms(2) obtain snaps where o: "observer t = apply_status g ob (s0 # snaps)" by blast
  have n: "\<And>t1. observer t1 = observer t \<Longrightarrow>
      \<exists>snaps'. observer (notify (Some g) t1) = apply_status g ob (s0 # snaps')"
  proof -
    fix t1 :: "'a transfer"
    assume "observer t1 = observer t"
    then have "observer (notify (Some g) t1) =
        apply_status g ob ((s0 # snaps) @ [(bytesToTransfer t1, bytesTransferred t1)])"
      by (simp add: notify_def o apply_status_snoc del: append_Cons)
    then show "\<exists>snaps'. observer (notify (Some g) t1) = apply_status g ob (s0 # snaps')"
      by (metis append_Cons)
  qed
  from assms(1) o n show ?thesis
    by (auto simp: sendChunk_def split: if_splits prod.splits option.splits)
qed

lemma length_progress:
  "length (progress B s kbs) = length (filter (\<lambda>kb. fst kb \<noteq> emptyKey) kbs)"
  by (induction B s kbs rule: progress.induct) simp_all

lemma length_filter_zip_fst:
  "length ks = length bs \<Longrightarrow>
   length (filter (\<lambda>kb. P (fst kb)) (zip ks bs)) = length (filter P ks)"
  by (induction ks bs rule: list_induct2) simp_all

lemma filter_mset_replicate:
  "filter_mset P (replicate_mset n x) = (if P x then replicate_mset n x else {#})"
  by (induction n) simp_all

lemma filter_shuffled_keys:
  assumes "perm_ok p" and "length ks \<le> length p"
  shows "length (filter (\<lambda>k. k \<noteq> emptyKey) (shuffled p emptyKey ks)) =
         length (filter (\<lambda>k. k \<noteq> emptyKey) ks)"
proof -
  have "length (filter (\<lambda>k. k \<noteq> emptyKey) (shuffled p emptyKey ks)) =
        size (filter_mset (\<lambda>k. k \<noteq> emptyKey) (mset (shuffled p emptyKey ks)))"
    by (simp flip: mset_filter)
  also have "\<dots> = size (filter_mset (\<lambda>k. k \<noteq> emptyKey) (mset ks))"
    by (simp add: mset_shuffled[OF assms] filter_mset_replicate)
  also have "\<dots> = length (filter (\<lambda>k. k \<noteq> emptyKey) ks)"
    by (simp flip: mset_filter)
  finally show ?thesis .
qed

text \<open>
  C7. \<^verbatim>\<open>WriteChunkData\<close> starts from \<^verbatim>\<open>bytesToTransfer\<close> equal to the size of the file
  and \<^verbatim>\<open>bytesTransferred\<close> equal to 0. Without a callback the observer is left as it
  was, whatever the run does. With a callback, the first call carries these initial
  values, in every run; in a run that returns without error the callback is then called
  once after each chunk that is processed, requested or not, with the counters as they
  are after that chunk, that is once per chunk of the file whose key is not the empty
  key.
\<close>

theorem WriteChunkData_status_callback:
  assumes "perm_ok p" and "length (chunks file) \<le> length p"
  shows "observer (user (snd (WriteChunkData st file r p w None ob))) = ob \<and>
    (\<forall>g. \<exists>snaps. observer (user (snd (WriteChunkData st file r p w (Some g) ob))) =
        apply_status g ob ((Size file, 0) # snaps)) \<and>
    (\<forall>g wd. WriteChunkData st file r p w (Some g) ob = (None, wd) \<longrightarrow>
       (\<exists>bs br. length bs = length p \<and>
          read_bits (length p) (newBitReader r) = Inr (bs, br) \<and>
          observer (user wd) = apply_status g ob
            ((Size file, 0) #
             progress (blobs st) (Size file, 0) (zip (shuffled p emptyKey (chunk_keys file)) bs)) \<and>
          length (progress (blobs st) (Size file, 0)
                    (zip (shuffled p emptyKey (chunk_keys file)) bs)) =
            length (filter (\<lambda>k. k \<noteq> emptyKey) (chunk_keys file))))"
proof -
  let ?slots = "shuffled p emptyKey (chunk_keys file)"
  let ?t = "\<lparr>out = w, bytesToTransfer = Size file, bytesTransferred = 0, observer = ob\<rparr>"
  have a: "observer (user (snd (WriteChunkData st file r p w None ob))) = ob"
    unfolding WriteChunkData_def
    by (rule forEachChunk_user_invariant[of "\<lambda>t. observer t = ob"])
       (simp_all add: sendChunk_no_callback notify_def)
  have b: "\<forall>g. \<exists>snaps. observer (user (snd (WriteChunkData st file r p w (Some g) ob))) =
        apply_status g ob ((Size file, 0) # snaps)"
  proof
    fix g
    have init: "\<exists>snaps. observer (notify (Some g) ?t) = apply_status g ob ((Size file, 0) # snaps)"
      by (intro exI[of _ "[]"]) (simp add: notify_def apply_status_def)
    show "\<exists>snaps. observer (user (snd (WriteChunkData st file r p w (Some g) ob))) =
        apply_status g ob ((Size file, 0) # snaps)"
      unfolding WriteChunkData_def
      by (rule forEachChunk_user_invariant[of
            "\<lambda>t. \<exists>snaps. observer t = apply_status g ob ((Size file, 0) # snaps)"])
         (erule (1) sendChunk_callback, rule init)
  qed
  have c: "\<forall>g wd. WriteChunkData st file r p w (Some g) ob = (None, wd) \<longrightarrow>
       (\<exists>bs br. length bs = length p \<and>
          read_bits (length p) (newBitReader r) = Inr (bs, br) \<and>
          observer (user wd) = apply_status g ob
            ((Size file, 0) # progress (blobs st) (Size file, 0) (zip ?slots bs)) \<and>
          length (progress (blobs st) (Size file, 0) (zip ?slots bs)) =
            length (filter (\<lambda>k. k \<noteq> emptyKey) (chunk_keys file)))"
  proof (intro allI impI)
    fix g wd
    assume run: "WriteChunkData st file r p w (Some g) ob = (None, wd)"
    from WriteChunkData_success[OF assms run] obtain bs br where
      l: "length bs = length p" and rb: "read_bits (length p) (newBitReader r) = Inr (bs, br)"
      and o: "observer (user wd) = apply_status g ob
            ((Size file, 0) # progress (blobs st) (Size file, 0) (zip ?slots bs))"
      by auto
    have lk: "length (chunk_keys file) \<le> length p"
      using assms(2) by (simp add: chunk_keys_def)
    have ls: "length ?slots = length bs"
      using l by (simp add: length_shuffled)
    have "length (progress (blobs st) (Size file, 0) (zip ?slots bs)) =
          length (filter (\<lambda>k. k \<noteq> emptyKey) ?slots)"
      using length_filter_zip_fst[OF ls, of "\<lambda>k. k \<noteq> emptyKey"]
      by (simp add: length_progress)
    also have "\<dots> = length (filter (\<lambda>k. k \<noteq> emptyKey) (chunk_keys file))"
      by (rule filter_shuffled_keys[OF assms(1) lk])
    finally show "\<exists>bs br. length bs = length p \<and>
          read_bits (length p) (newBitReader r) = Inr (bs, br) \<and>
          observer (user wd) = apply_status g ob
            ((Size file, 0) # progress (blobs st) (Size file, 0) (zip ?slots bs)) \<and>
          length (progress (blobs st) (Size file, 0) (zip ?slots bs)) =
            length (filter (\<lambda>k. k \<noteq> emptyKey) (chunk_keys file))"
      using l rb o by blast
  qed
  show ?thesis by (rule conjI[OF a conjI[OF b c]])
qed


theorem WriteChunkData_status_callback_witness:
  "perm_ok [2, 0, 1] \<and>
   length (chunks \<lparr>handle = 0, chunks = [(7, [1, 2, 3]), (9, [4])]\<rparr>) \<le> length [2, 0, 1 :: nat] \<and>
   observer (user (snd (WriteChunkData
       \<lparr>blobs = [7 \<mapsto> [1, 2, 3], 9 \<mapsto> [4]], issued = 0, events = []\<rparr>
       \<lparr>handle = 0, chunks = [(7, [1, 2, 3]), (9, [4])]\<rparr>
       \<lparr>pending = [0x20], ending = EOF\<rparr> [2, 0, 1] \<lparr>written = [], room = None\<rparr>
       None ([] :: (int \<times> int) list)))) = [] \<and>
   fst (WriteChunkData
       \<lparr>blobs = [7 \<mapsto> [1, 2, 3], 9 \<mapsto> [4]], issued = 0, events = []\<rparr>
       \<lparr>handle = 0, chunks = [(7, [1, 2, 3]), (9, [4])]\<rparr>
       \<lparr>pending = [0x20], ending = EOF\<rparr> [2, 0, 1] \<lparr>written = [], room = None\<rparr>
       (Some record_status) []) = None \<and>
   apply_status record_status []
     ((Size \<lparr>handle = 0, chunks = [(7, [1, 2, 3]), (9, [4])]\<rparr>, 0) #
      progress [7 \<mapsto> [1, 2, 3], 9 \<mapsto> [4]]
        (Size \<lparr>handle = 0, chunks = [(7, [1, 2, 3]), (9, [4])]\<rparr>, 0)
        (zip (shuffled [2, 0, 1] emptyKey
                (chunk_keys \<lparr>handle = 0, chunks = [(7, [1, 2, 3]), (9, [4])]\<rparr>))
             [False, False, True])) =
     [(4, 0), (3, 0), (3, 3)]"
proof -
  let ?file = "\<lparr>handle = 0, chunks = [(7, [1, 2, 3]), (9, [4])]\<rparr>"
  let ?st = "\<lparr>blobs = [7 \<mapsto> [1, 2, 3], 9 \<mapsto> [4]], issued = 0, events = []\<rparr>"
  let ?r = "\<lparr>pending = [0x20], ending = EOF\<rparr>"
  let ?w = "\<lparr>written = [], room = None\<rparr>"
  let ?br = "\<lparr>src = \<lparr>pending = [], ending = EOF\<rparr>, cur = 0, nbits = 5\<rparr>"
  let ?wd = "\<lparr>bits = ?br,
       storage = \<lparr>blobs = [7 \<mapsto> [1, 2, 3], 9 \<mapsto> [4]], issued = 2,
                  events = [Acquired 0, Disposed 0, Acquired 1, Disposed 1]\<rparr>,
       user = \<lparr>out = \<lparr>written = [3, 1, 2, 3], room = None\<rparr>, bytesToTransfer = 3,
               bytesTransferred = 3, observer = [(4 :: int, 0 :: int), (3, 0), (3, 3)]\<rparr>\<rparr>"
  have a: "perm_ok [2, 0, 1]" by (rule perm_ok_example)
  have b: "length (chunks ?file) \<le> length [2, 0, 1 :: nat]" by simp
  have run: "WriteChunkData ?st ?file ?r [2, 0, 1] ?w (Some record_status) [] = (None, ?wd)"
    by (rule WriteChunkData_example)
  have rb: "read_bits 3 (newBitReader ?r) = Inr ([False, False, True], ?br)"
    by (simp add: numeral_3_eq_3 ReadBit_def ReadByte_def newBitReader_def)
  note inst = WriteChunkData_status_callback[OF a b, of ?st ?r ?w "[] :: (int \<times> int) list"]
  from inst have none: "observer (user (snd (WriteChunkData ?st ?file ?r [2, 0, 1] ?w
       None ([] :: (int \<times> int) list)))) = []"
    by (rule conjunct1)
  from inst[THEN conjunct2, THEN conjunct2, rule_format, OF run] obtain bs br where
    c: "read_bits (length [2, 0, 1 :: nat]) (newBitReader ?r) = Inr (bs, br)"
    and d: "observer (user ?wd) = apply_status record_status []
            ((Size ?file, 0) #
             progress (blobs ?st) (Size ?file, 0)
               (zip (shuffled [2, 0, 1] emptyKey (chunk_keys ?file)) bs))"
    by (elim exE conjE) (rule that)
  have l3: "length [2, 0, 1 :: nat] = 3" by simp
  from trans[OF c[unfolded l3, symmetric] rb] have "bs = [False, False, True]" by simp
  with d have e: "apply_status record_status []
     ((Size ?file, 0) #
      progress [7 \<mapsto> [1, 2, 3], 9 \<mapsto> [4]] (Size ?file, 0)
        (zip (shuffled [2, 0, 1] emptyKey (chunk_keys ?file)) [False, False, True])) =
     [(4, 0), (3, 0), (3, 3)]"
    by simp
  from run have f: "fst (WriteChunkData ?st ?file ?r [2, 0, 1] ?w (Some record_status) []) = None"
    by simp
  from a b none f e show ?thesis by blast
qed

section \<open>WriteChunkData: the progress snapshots are monotone\<close>

lemma may_follow_refl: "may_follow a a"
  by (simp add: may_follow_def)

lemma may_follow_trans: "may_follow a b \<Longrightarrow> may_follow b c \<Longrightarrow> may_follow a c"
  by (auto simp: may_follow_def)

lemma sorted_before_last:
  assumes "sorted_wrt may_follow L" and "x \<in> set L"
  shows "may_follow x (last L)"
proof -
  from assms(2) have ne: "L \<noteq> []" by auto
  then have L: "L = butlast L @ [last L]" by simp
  from assms(1) have "sorted_wrt may_follow (butlast L @ [last L])"
    using L by simp
  then have "\<forall>y\<in>set (butlast L). may_follow y (last L)"
    by (simp add: sorted_wrt_append)
  moreover from assms(2) have "x \<in> set (butlast L) \<or> x = last L"
    by (subst (asm) L) auto
  ultimately show ?thesis
    by (auto simp: may_follow_refl)
qed

lemma sorted_snoc:
  assumes "sorted_wrt may_follow L" and "may_follow (last L) s"
  shows "sorted_wrt may_follow (L @ [s])"
  using assms
  by (auto simp: sorted_wrt_append intro: may_follow_trans[OF sorted_before_last])

lemma tracked_notify:
  assumes "tracked S t"
    and "bytesToTransfer t' \<le> bytesToTransfer t" and "bytesTransferred t \<le> bytesTransferred t'"
    and "observer t' = observer t"
  shows "tracked S (notify (Some record_status) t')"
proof -
  let ?L = "observer t"
  let ?s = "(bytesToTransfer t', bytesTransferred t')"
  from assms(1) have ne: "?L \<noteq> []" and hd: "hd ?L = (S, 0)"
    and so: "sorted_wrt may_follow ?L" and la: "last ?L = (bytesToTransfer t, bytesTransferred t)"
    by (simp_all add: tracked_def)
  have mf: "may_follow (last ?L) ?s"
    using assms(2,3) by (simp add: la may_follow_def)
  have o: "observer (notify (Some record_status) t') = ?L @ [?s]"
    by (simp add: notify_def record_status_def assms(4))
  have "sorted_wrt may_follow (?L @ [?s])"
    by (rule sorted_snoc[OF so mf])
  with ne hd show ?thesis
    by (simp add: tracked_def o notify_fields(2,3))
qed

lemma tracked_out: "tracked S (t\<lparr>out := w\<rparr>) = tracked S t"
  by (simp add: tracked_def)

lemma Size_eq_length_Open: "Size f = int (length (Open f))"
  by (simp add: Size_def Open_def length_concat comp_def)

lemma sendChunk_tracked:
  assumes "sendChunk (Some record_status) chunk b t = (e, t')" and "tracked S t"
  shows "tracked S t' \<and>
         bytesToTransfer t - bytesTransferred t - Size chunk \<le>
           bytesToTransfer t' - bytesTransferred t'"
proof (cases b)
  case False
  have nn: "0 \<le> Size chunk" by (simp add: Size_def)
  from assms(1) False
  have t': "t' = notify (Some record_status) (t\<lparr>bytesToTransfer := bytesToTransfer t - Size chunk\<rparr>)"
    by (simp add: sendChunk_def)
  have "tracked S t'"
    unfolding t' using nn by (intro tracked_notify[OF assms(2)]) simp_all
  then show ?thesis
    by (simp add: t' notify_fields)
next
  case True
  have nn: "0 \<le> Size chunk" by (simp add: Size_def)
  obtain e1 w1 where v: "writeVarint (out t) (Size chunk) = (e1, w1)"
    by (cases "writeVarint (out t) (Size chunk)")
  show ?thesis
  proof (cases e1)
    case (Some x)
    with assms(1) True v have "t' = t\<lparr>out := w1\<rparr>"
      by (simp add: sendChunk_def)
    with assms(2) nn show ?thesis by (simp add: tracked_out)
  next
    case None
    obtain n e2 w2 where c: "Copy w1 (Open chunk) = (n, e2, w2)"
      by (cases "Copy w1 (Open chunk)")
    show ?thesis
    proof (cases e2)
      case (Some x)
      with assms(1) True v None c have "t' = t\<lparr>out := w2\<rparr>"
        by (simp add: sendChunk_def)
      with assms(2) nn show ?thesis by (simp add: tracked_out)
    next
      case n2: None
      from c n2 have n: "n = length (Open chunk)"
        using Write_success[of w1 "Open chunk" n w2] by (simp add: Copy_def)
      from assms(1) True v None c n2
      have t': "t' = notify (Some record_status)
          (t\<lparr>out := w2, bytesTransferred := bytesTransferred t + int n\<rparr>)"
        by (simp add: sendChunk_def)
      have "tracked S t'"
        unfolding t' by (intro tracked_notify[OF assms(2)]) simp_all
      then show ?thesis
        by (simp add: t' notify_fields n Size_eq_length_Open)
    qed
  qed
qed

lemma due_nonneg: "0 \<le> due B k"
  by (simp add: due_def)

lemma onSlot_sendChunk_tracked:
  assumes "onSlot (sendChunk (Some record_status)) k wd = (e, wd')" and "tracked S (user wd)"
  shows "tracked S (user wd') \<and> blobs (storage wd') = blobs (storage wd) \<and>
         bytesToTransfer (user wd) - bytesTransferred (user wd) - due (blobs (storage wd)) k \<le>
           bytesToTransfer (user wd') - bytesTransferred (user wd')"
proof -
  have same: "user wd' = user wd \<and> blobs (storage wd') = blobs (storage wd) \<Longrightarrow> ?thesis"
    using assms(2) due_nonneg[of "blobs (storage wd)" k] by simp
  show ?thesis
  proof (cases "ReadBit (bits wd)")
    case (Inl err)
    with assms(1) show ?thesis by (intro same) (simp add: onSlot_def)
  next
    case (Inr a)
    then obtain b br where rb: "ReadBit (bits wd) = Inr (b, br)" by (cases a) simp
    show ?thesis
    proof (cases "k = emptyKey")
      case True
      with assms(1) rb show ?thesis
        by (intro same) (auto simp: onSlot_def split: if_splits)
    next
      case False
      show ?thesis
      proof (cases "blobs (storage wd) k")
        case None
        with assms(1) rb False show ?thesis
          by (intro same) (auto simp: onSlot_def Get_def)
      next
        case (Some d)
        let ?chunk = "\<lparr>handle = issued (storage wd), chunks = [(k, d)]\<rparr>"
        obtain r u' where f: "sendChunk (Some record_status) ?chunk b (user wd) = (r, u')"
          by (cases "sendChunk (Some record_status) ?chunk b (user wd)")
        from assms(1) rb False Some f
        have u: "user wd' = u'" and bl: "blobs (storage wd') = blobs (storage wd)"
          by (auto simp: onSlot_def Get_def Dispose_def)
        have d: "due (blobs (storage wd)) k = Size ?chunk"
          using False Some by (simp add: due_def chunk_of_def Size_def)
        from sendChunk_tracked[OF f assms(2)] show ?thesis
          by (simp add: u bl d)
      qed
    qed
  qed
qed

lemma emit_all_tracked:
  "emit_all (onSlot (sendChunk (Some record_status))) ks wd = (e, wd') \<Longrightarrow>
   tracked S (user wd) \<Longrightarrow>
   sum_list (map (due (blobs (storage wd))) ks) \<le>
     bytesToTransfer (user wd) - bytesTransferred (user wd) \<Longrightarrow>
   tracked S (user wd') \<and> bytesTransferred (user wd') \<le> bytesToTransfer (user wd')"
proof (induction ks arbitrary: wd)
  case Nil
  then show ?case by simp
next
  case (Cons k ks)
  have nn: "0 \<le> sum_list (map (due (blobs (storage wd))) ks)"
    by (rule sum_list_nonneg) (auto simp: due_nonneg)
  obtain e1 wd1 where s: "onSlot (sendChunk (Some record_status)) k wd = (e1, wd1)"
    by (cases "onSlot (sendChunk (Some record_status)) k wd")
  from onSlot_sendChunk_tracked[OF s Cons.prems(2)] have
    t1: "tracked S (user wd1)" and b1: "blobs (storage wd1) = blobs (storage wd)"
    and g1: "bytesToTransfer (user wd) - bytesTransferred (user wd) - due (blobs (storage wd)) k \<le>
           bytesToTransfer (user wd1) - bytesTransferred (user wd1)"
    by simp_all
  from Cons.prems(3) g1 have rest:
    "sum_list (map (due (blobs (storage wd1))) ks) \<le>
       bytesToTransfer (user wd1) - bytesTransferred (user wd1)"
    by (simp add: b1)
  show ?case
  proof (cases e1)
    case (Some x)
    with Cons.prems(1) s have "wd' = wd1" by simp
    with t1 rest nn show ?thesis by (simp add: b1)
  next
    case None
    with Cons.prems(1) s have "emit_all (onSlot (sendChunk (Some record_status))) ks wd1 = (e, wd')"
      by simp
    from Cons.IH[OF this t1 rest] show ?thesis .
  qed
qed

lemma sum_due_shuffled:
  assumes "perm_ok p" and "length ks \<le> length p"
  shows "sum_list (map (due B) (shuffled p emptyKey ks)) = sum_list (map (due B) ks)"
proof -
  have "sum_list (map (due B) (shuffled p emptyKey ks)) =
        sum_mset (image_mset (due B) (mset (shuffled p emptyKey ks)))"
    by (simp flip: sum_mset_sum_list)
  also have "\<dots> = sum_mset (image_mset (due B) (mset ks))"
    by (simp add: mset_shuffled[OF assms] due_def)
  also have "\<dots> = sum_list (map (due B) ks)"
    by (simp flip: sum_mset_sum_list)
  finally show ?thesis .
qed

lemma sum_due_stored:
  assumes "stored st file"
  shows "sum_list (map (due (blobs st)) (chunk_keys file)) \<le> Size file"
proof -
  have "sum_list (map (due (blobs st)) (chunk_keys file)) =
        sum_list (map (\<lambda>c. due (blobs st) (fst c)) (chunks file))"
    by (simp add: chunk_keys_def comp_def)
  also have "\<dots> \<le> sum_list (map (\<lambda>c. int (length (snd c))) (chunks file))"
  proof (rule sum_list_mono)
    fix c
    assume "c \<in> set (chunks file)"
    with assms have "blobs st (fst c) = Some (snd c)"
      by (simp add: stored_def list_all_iff)
    then show "due (blobs st) (fst c) \<le> int (length (snd c))"
      by (simp add: due_def chunk_of_def)
  qed
  also have "\<dots> = Size file"
    using sum_list_of_nat[of "map (\<lambda>c. length (snd c)) (chunks file)", where 'a = int]
    by (simp add: Size_def comp_def)
  finally show ?thesis .
qed

text \<open>
  C8. In every run of \<^verbatim>\<open>WriteChunkData\<close> on a file held by the storage, whether it
  returns an error or not, the snapshots given to the callback start with the size of
  the file and 0; from each snapshot to any later one \<^verbatim>\<open>bytesToTransfer\<close> does not
  increase and \<^verbatim>\<open>bytesTransferred\<close> does not decrease; the last snapshot shows the
  final counters; and \<^verbatim>\<open>bytesTransferred\<close> never exceeds the final value of
  \<^verbatim>\<open>bytesToTransfer\<close>.
\<close>

theorem WriteChunkData_progress_monotone:
  assumes "perm_ok p" and "length (chunks file) \<le> length p" and "stored st file"
  shows "observer (user (snd (WriteChunkData st file r p w (Some record_status) []))) \<noteq> [] \<and>
    hd (observer (user (snd (WriteChunkData st file r p w (Some record_status) [])))) =
      (Size file, 0) \<and>
    sorted_wrt may_follow
      (observer (user (snd (WriteChunkData st file r p w (Some record_status) [])))) \<and>
    last (observer (user (snd (WriteChunkData st file r p w (Some record_status) [])))) =
      (bytesToTransfer (user (snd (WriteChunkData st file r p w (Some record_status) []))),
       bytesTransferred (user (snd (WriteChunkData st file r p w (Some record_status) [])))) \<and>
    (\<forall>s\<in>set (observer (user (snd (WriteChunkData st file r p w (Some record_status) [])))).
       snd s \<le> bytesToTransfer (user (snd (WriteChunkData st file r p w (Some record_status) []))))"
proof -
  let ?slots = "shuffled p emptyKey (chunk_keys file)"
  let ?t0 = "notify (Some record_status)
      \<lparr>out = w, bytesToTransfer = Size file, bytesTransferred = 0, observer = []\<rparr>"
  let ?wd0 = "\<lparr>bits = newBitReader r, storage = st, user = ?t0\<rparr>"
  let ?res = "WriteChunkData st file r p w (Some record_status) []"
  obtain e wd where em: "emit_all (onSlot (sendChunk (Some record_status))) ?slots ?wd0 = (e, wd)"
    by (cases "emit_all (onSlot (sendChunk (Some record_status))) ?slots ?wd0")
  have u: "user (snd ?res) = user wd"
    unfolding WriteChunkData_def forEachChunk_run[OF assms(1,2)] em
    by (auto split: option.splits sum.splits)
  have t0: "tracked (Size file) (user ?wd0)"
    by (simp add: tracked_def notify_def record_status_def may_follow_def)
  have lk: "length (chunk_keys file) \<le> length p"
    using assms(2) by (simp add: chunk_keys_def)
  have "sum_list (map (due (blobs st)) ?slots) \<le> Size file"
    using sum_due_shuffled[OF assms(1) lk, of "blobs st"] sum_due_stored[OF assms(3)] by simp
  then have s0: "sum_list (map (due (blobs (storage ?wd0))) ?slots) \<le>
      bytesToTransfer (user ?wd0) - bytesTransferred (user ?wd0)"
    by (simp add: notify_fields)
  from emit_all_tracked[OF em t0 s0]
  have tr: "tracked (Size file) (user wd)"
    and le: "bytesTransferred (user wd) \<le> bytesToTransfer (user wd)"
    by simp_all
  let ?L = "observer (user wd)"
  from tr have ne: "?L \<noteq> []" and hd: "hd ?L = (Size file, 0)"
    and so: "sorted_wrt may_follow ?L"
    and la: "last ?L = (bytesToTransfer (user wd), bytesTransferred (user wd))"
    by (simp_all add: tracked_def)
  have bound: "\<forall>s\<in>set ?L. snd s \<le> bytesToTransfer (user wd)"
  proof
    fix s
    assume "s \<in> set ?L"
    from sorted_before_last[OF so this] have "snd s \<le> bytesTransferred (user wd)"
      by (simp add: la may_follow_def)
    with le show "snd s \<le> bytesToTransfer (user wd)" by simp
  qed
  from ne hd so la bound show ?thesis
    unfolding u by blast
qed


lemma WriteChunkData_failing_example:
  "WriteChunkData \<lparr>blobs = [7 \<mapsto> [1, 2, 3], 9 \<mapsto> [4]], issued = 0, events = []\<rparr>
       \<lparr>handle = 0, chunks = [(7, [1, 2, 3]), (9, [4])]\<rparr>
       \<lparr>pending = [0xA0], ending = EOF\<rparr> [2, 0, 1] \<lparr>written = [], room = Some 3\<rparr>
       (Some record_status) [] =
     (Some IOError,
      \<lparr>bits = \<lparr>src = \<lparr>pending = [], ending = EOF\<rparr>, cur = 0, nbits = 5\<rparr>,
       storage = \<lparr>blobs = [7 \<mapsto> [1, 2, 3], 9 \<mapsto> [4]], issued = 2,
                  events = [Acquired 0, Disposed 0, Acquired 1, Disposed 1]\<rparr>,
       user = \<lparr>out = \<lparr>written = [1, 4, 3], room = Some 0\<rparr>, bytesToTransfer = 4,
               bytesTransferred = 1, observer = [(4, 0), (4, 1)]\<rparr>\<rparr>)"
proof -
  let ?file = "\<lparr>handle = 0, chunks = [(7, [1, 2, 3]), (9, [4])]\<rparr>"
  have b: "length (chunks ?file) \<le> length [2, 0, 1 :: nat]" by simp
  show ?thesis
    unfolding WriteChunkData_def forEachChunk_run[OF perm_ok_example b] shuffled_example
    by (simp add: onSlot_def ReadBit_def ReadByte_def newBitReader_def Get_def Dispose_def
        emptyKey_def sendChunk_def notify_def record_status_def writeVarint_def Write_def
        Copy_def Size_def Open_def varint_small)
qed

theorem WriteChunkData_progress_monotone_witness:
  "perm_ok [2, 0, 1] \<and>
   length (chunks \<lparr>handle = 0, chunks = [(7, [1, 2, 3]), (9, [4])]\<rparr>) \<le> length [2, 0, 1 :: nat] \<and>
   stored \<lparr>blobs = [7 \<mapsto> [1, 2, 3], 9 \<mapsto> [4]], issued = 0, events = []\<rparr>
     \<lparr>handle = 0, chunks = [(7, [1, 2, 3]), (9, [4])]\<rparr> \<and>
   fst (WriteChunkData \<lparr>blobs = [7 \<mapsto> [1, 2, 3], 9 \<mapsto> [4]], issued = 0, events = []\<rparr>
       \<lparr>handle = 0, chunks = [(7, [1, 2, 3]), (9, [4])]\<rparr>
       \<lparr>pending = [0xA0], ending = EOF\<rparr> [2, 0, 1] \<lparr>written = [], room = Some 3\<rparr>
       (Some record_status) []) = Some IOError \<and>
   sorted_wrt may_follow [(4, 0), (4, 1)] \<and>
   hd [(4 :: int, 0 :: int), (4, 1)] = (Size \<lparr>handle = 0, chunks = [(7, [1, 2, 3]), (9, [4])]\<rparr>, 0) \<and>
   last [(4 :: int, 0 :: int), (4, 1)] = (4, 1)"
proof -
  let ?file = "\<lparr>handle = 0, chunks = [(7, [1, 2, 3]), (9, [4])]\<rparr>"
  let ?st = "\<lparr>blobs = [7 \<mapsto> [1, 2, 3], 9 \<mapsto> [4]], issued = 0, events = []\<rparr>"
  let ?r = "\<lparr>pending = [0xA0], ending = EOF\<rparr>"
  let ?w = "\<lparr>written = [], room = Some 3\<rparr>"
  have a: "perm_ok [2, 0, 1]" by (rule perm_ok_example)
  have b: "length (chunks ?file) \<le> length [2, 0, 1 :: nat]" by simp
  have c: "stored ?st ?file" by (simp add: stored_def)
  note run = WriteChunkData_failing_example
  note inst = WriteChunkData_progress_monotone[OF a b c, of ?r ?w, unfolded run]
  from inst have so: "sorted_wrt may_follow [(4, 0), (4, 1)]"
    and hd: "hd [(4 :: int, 0 :: int), (4, 1)] = (Size ?file, 0)"
    and la: "last [(4 :: int, 0 :: int), (4, 1)] = (4, 1)"
    by simp_all
  from run have "fst (WriteChunkData ?st ?file ?r [2, 0, 1] ?w (Some record_status) []) =
      Some IOError"
    by simp
  with a b c so hd la show ?thesis by blast
qed

end
